theory Spec2Isabelle
  imports Main
begin

section \<open>Source buffers\<close>

text \<open>
  The engine of \<^verbatim>\<open>migrate-extensions.js\<close> (duplicated in
  \<^verbatim>\<open>upgrade-functions.js\<close>) works on JavaScript strings through integer offsets.
  A buffer is modelled as a \<^typ>\<open>string\<close>; each \<^typ>\<open>char\<close> stands for the
  code unit of the same number, so the model covers buffers over U+0000..U+00FF.
  Offsets are natural numbers; the one function that returns \<^verbatim>\<open>-1\<close>
  (\<^verbatim>\<open>findBalancedEnd\<close>, and \<^verbatim>\<open>indexOf\<close>) returns an \<^typ>\<open>int\<close>.
\<close>

abbreviation (input) dquote :: char where "dquote \<equiv> CHR 0x22"
abbreviation (input) squote :: char where "squote \<equiv> CHR 0x27"
abbreviation (input) backtick :: char where "backtick \<equiv> CHR 0x60"
abbreviation (input) backslash :: char where "backslash \<equiv> CHR 0x5C"
abbreviation (input) newline :: char where "newline \<equiv> CHR 0x0A"
abbreviation (input) tab :: char where "tab \<equiv> CHR 0x09"

text \<open>\<^verbatim>\<open>str[i]\<close>: \<^verbatim>\<open>undefined\<close> (here \<open>None\<close>) outside the buffer.\<close>

definition charAt :: "string \<Rightarrow> nat \<Rightarrow> char option" where
  "charAt str i = (if i < length str then Some (str ! i) else None)"

text \<open>
  \<^verbatim>\<open>str.substring(a, b)\<close> for non-negative arguments: both are clamped to the
  length and swapped when \<open>a > b\<close>. \<^verbatim>\<open>str.substring(a)\<close> is \<open>drop a str\<close>.
\<close>

definition substring :: "string \<Rightarrow> nat \<Rightarrow> nat \<Rightarrow> string" where
  "substring str a b =
     (let a' = min a (length str); b' = min b (length str)
      in take (max a' b' - min a' b') (drop (min a' b') str))"

text \<open>
  The regular expression class \<^verbatim>\<open>\s\<close>, which is also what \<^verbatim>\<open>trim()\<close>
  strips, on code units below 256: TAB, LF, VT, FF, CR, space and U+00A0.
\<close>

definition is_space :: "char \<Rightarrow> bool" where
  "is_space c = (c = tab \<or> c = newline \<or> c = CHR 0x0B \<or> c = CHR 0x0C \<or> c = CHR 0x0D
                 \<or> c = CHR '' '' \<or> c = CHR 0xA0)"

text \<open>
  \<^verbatim>\<open>while (i < str.length && P(str[i])) i++\<close>, the shape of the small scanning loops.
\<close>

function scan_while :: "(char \<Rightarrow> bool) \<Rightarrow> string \<Rightarrow> nat \<Rightarrow> nat" where
  "scan_while P str i = (if i < length str \<and> P (str ! i) then scan_while P str (i + 1) else i)"
  by pat_completeness auto
termination
  by (relation "measure (\<lambda>(P, str, i). length str - i)") auto

declare scan_while.simps [simp del]

text \<open>
  \<^verbatim>\<open>str.indexOf(pat, from)\<close> for a pattern that is not empty: the first offset at or
  after \<open>from\<close> where \<open>pat\<close> occurs, or \<open>-1\<close>.
\<close>

function indexOf :: "string \<Rightarrow> string \<Rightarrow> nat \<Rightarrow> int" where
  "indexOf str pat i =
     (if length str < i + length pat then - 1
      else if take (length pat) (drop i str) = pat then int i
      else indexOf str pat (i + 1))"
  by pat_completeness auto
termination
  by (relation "measure (\<lambda>(str, pat, i). Suc (length str) - i)") auto

declare indexOf.simps [simp del]

text \<open>\<^verbatim>\<open>str.includes(pat)\<close>.\<close>

definition str_includes :: "string \<Rightarrow> string \<Rightarrow> bool" where
  "str_includes str pat = (indexOf str pat 0 \<noteq> - 1)"

section \<open>Lexical scanner\<close>

text \<open>
  \<^verbatim>\<open>skipQuoted(str, pos)\<close>: the loop from \<open>pos + 1\<close>, with \<open>q = str[pos]\<close>.
\<close>

function skipQuoted_loop :: "string \<Rightarrow> char option \<Rightarrow> nat \<Rightarrow> nat" where
  "skipQuoted_loop str q i =
     (if i < length str then
        (if str ! i = backslash then skipQuoted_loop str q (i + 2)
         else if Some (str ! i) = q then i + 1
         else skipQuoted_loop str q (i + 1))
      else i)"
  by pat_completeness auto
termination
  by (relation "measure (\<lambda>(str, q, i). length str - i)") auto

declare skipQuoted_loop.simps [simp del]

definition skipQuoted :: "string \<Rightarrow> nat \<Rightarrow> nat" where
  "skipQuoted str pos = skipQuoted_loop str (charAt str pos) (pos + 1)"

text \<open>
  The inner loop of \<^verbatim>\<open>skipTemplate\<close>, entered after \<^verbatim>\<open>${\<close> with \<open>d = 1\<close>:
  it counts braces only and returns the offset where it stops.
\<close>

function interpolation_loop :: "string \<Rightarrow> nat \<Rightarrow> nat \<Rightarrow> nat" where
  "interpolation_loop str i d =
     (if i < length str \<and> 0 < d then
        (if str ! i = CHR ''{'' then interpolation_loop str (i + 1) (d + 1)
         else if str ! i = CHR ''}'' then interpolation_loop str (i + 1) (d - 1)
         else interpolation_loop str (i + 1) d)
      else i)"
  by pat_completeness auto
termination
  by (relation "measure (\<lambda>(str, i, d). length str - i)") auto

declare interpolation_loop.simps [simp del]

lemma interpolation_loop_ge: "i \<le> interpolation_loop str i d"
proof (induction str i d rule: interpolation_loop.induct)
  case (1 str i d)
  show ?case
    using "1.IH" by (subst interpolation_loop.simps) (auto dest: add_leD1)
qed

function skipTemplate_loop :: "string \<Rightarrow> nat \<Rightarrow> nat" where
  "skipTemplate_loop str i =
     (if i < length str then
        (if str ! i = backslash then skipTemplate_loop str (i + 2)
         else if str ! i = CHR ''$'' \<and> charAt str (i + 1) = Some (CHR ''{'')
           then skipTemplate_loop str (interpolation_loop str (i + 2) 1)
         else if str ! i = backtick then i + 1
         else skipTemplate_loop str (i + 1))
      else i)"
  by pat_completeness auto
termination
proof (relation "measure (\<lambda>(str, i). length str - i)", goal_cases)
  case (3 str i)
  have "i + 2 \<le> interpolation_loop str (i + 2) 1"
    by (rule interpolation_loop_ge)
  with 3 show ?case by simp
qed auto

declare skipTemplate_loop.simps [simp del]

definition skipTemplate :: "string \<Rightarrow> nat \<Rightarrow> nat" where
  "skipTemplate str pos = skipTemplate_loop str (pos + 1)"

lemma skipQuoted_loop_ge: "i \<le> skipQuoted_loop str q i"
proof (induction str q i rule: skipQuoted_loop.induct)
  case (1 str q i)
  show ?case
    using "1.IH" by (subst skipQuoted_loop.simps) (auto dest: add_leD1)
qed

lemma skipQuoted_gt: "pos < skipQuoted str pos"
  using skipQuoted_loop_ge [of "pos + 1" str "charAt str pos"]
  by (simp add: skipQuoted_def)

lemma skipTemplate_loop_ge: "i \<le> skipTemplate_loop str i"
proof (induction str i rule: skipTemplate_loop.induct)
  case (1 str i)
  have "i + 2 \<le> interpolation_loop str (i + 2) 1"
    by (rule interpolation_loop_ge)
  then have "i < length str \<Longrightarrow> str ! i \<noteq> backslash \<Longrightarrow>
      str ! i = CHR ''$'' \<and> charAt str (i + 1) = Some (CHR ''{'') \<Longrightarrow>
      i \<le> skipTemplate_loop str (interpolation_loop str (i + 2) 1)"
    using "1.IH"(2) by (auto dest: add_leD1)
  moreover have "i < length str \<Longrightarrow> str ! i = backslash \<Longrightarrow> i \<le> skipTemplate_loop str (i + 2)"
    using "1.IH"(1) by (auto dest: add_leD1)
  moreover have "i < length str \<Longrightarrow> str ! i \<noteq> backslash \<Longrightarrow>
      \<not> (str ! i = CHR ''$'' \<and> charAt str (i + 1) = Some (CHR ''{'')) \<Longrightarrow>
      str ! i \<noteq> backtick \<Longrightarrow> i \<le> skipTemplate_loop str (i + 1)"
    using "1.IH"(3) by (auto dest: add_leD1)
  ultimately show ?case
    by (subst skipTemplate_loop.simps) auto
qed

lemma skipTemplate_gt: "pos < skipTemplate str pos"
  using skipTemplate_loop_ge [of "pos + 1" str]
  by (simp add: skipTemplate_def)

text \<open>
  \<^verbatim>\<open>findBalancedEnd(str, pos)\<close>: \<open>open = str[pos]\<close>, \<open>close\<close> is
  \<^verbatim>\<open>'}'\<close> when \<open>open\<close> is \<^verbatim>\<open>'{'\<close> and \<^verbatim>\<open>']'\<close> otherwise; the loop
  starts at \<open>pos\<close> with depth 0 and returns \<open>-1\<close> when the buffer is exhausted.
\<close>


function findBalancedEnd_loop :: "string \<Rightarrow> char option \<Rightarrow> char \<Rightarrow> int \<Rightarrow> nat \<Rightarrow> int" where
  "findBalancedEnd_loop str opn cls depth i =
     (if i < length str then
        (if str ! i = dquote \<or> str ! i = squote
           then findBalancedEnd_loop str opn cls depth (skipQuoted str i)
         else if str ! i = backtick
           then findBalancedEnd_loop str opn cls depth (skipTemplate str i)
         else if Some (str ! i) = opn
           then findBalancedEnd_loop str opn cls (depth + 1) (i + 1)
         else if str ! i = cls
           then (if depth - 1 = 0 then int i
                 else findBalancedEnd_loop str opn cls (depth - 1) (i + 1))
         else findBalancedEnd_loop str opn cls depth (i + 1))
      else - 1)"
  by pat_completeness auto
termination
  apply (relation "measure (\<lambda>(str, opn, cls, depth, i). length str - i)")
  subgoal by simp
  subgoal for str opn cls depth i using skipQuoted_gt [of i str] by simp
  subgoal for str opn cls depth i using skipTemplate_gt [of i str] by simp
  subgoal by simp
  subgoal by simp
  subgoal by simp
  done
declare findBalancedEnd_loop.simps [simp del]

definition findBalancedEnd :: "string \<Rightarrow> nat \<Rightarrow> int" where
  "findBalancedEnd str pos =
     findBalancedEnd_loop str (charAt str pos)
       (if charAt str pos = Some (CHR ''{'') then CHR ''}'' else CHR '']'') 0 pos"

lemma scan_while_ge: "i \<le> scan_while P str i"
proof (induction P str i rule: scan_while.induct)
  case (1 P str i)
  show ?case
    using "1.IH" by (subst scan_while.simps) (auto dest: add_leD1)
qed

lemma indexOf_ge: "indexOf str pat i \<noteq> - 1 \<Longrightarrow> int i \<le> indexOf str pat i"
proof (induction str pat i rule: indexOf.induct)
  case (1 str pat i)
  show ?case
  proof (cases "length str < i + length pat \<or> take (length pat) (drop i str) = pat")
    case True
    with "1.prems" show ?thesis
      by (subst indexOf.simps) (auto simp: indexOf.simps [of str pat i])
  next
    case False
    with "1.prems" have "indexOf str pat (i + 1) \<noteq> - 1"
      by (simp add: indexOf.simps [of str pat i])
    with False "1.IH" have "int (i + 1) \<le> indexOf str pat (i + 1)"
      by simp
    with False show ?thesis
      by (simp add: indexOf.simps [of str pat i])
  qed
qed

lemma findBalancedEnd_loop_ge:
  "findBalancedEnd_loop str opn cls depth i \<noteq> - 1 \<Longrightarrow>
     int i \<le> findBalancedEnd_loop str opn cls depth i"
proof (induction str opn cls depth i rule: findBalancedEnd_loop.induct)
  case (1 str opn cls depth i)
  from "1.prems" have len: "i < length str"
    by (simp add: findBalancedEnd_loop.simps [of str opn cls depth i] split: if_splits)
  consider (quote) "str ! i = dquote \<or> str ! i = squote"
    | (template) "\<not> (str ! i = dquote \<or> str ! i = squote)" "str ! i = backtick"
    | (opener) "\<not> (str ! i = dquote \<or> str ! i = squote)" "str ! i \<noteq> backtick"
        "Some (str ! i) = opn"
    | (closer) "\<not> (str ! i = dquote \<or> str ! i = squote)" "str ! i \<noteq> backtick"
        "Some (str ! i) \<noteq> opn" "str ! i = cls"
    | (other) "\<not> (str ! i = dquote \<or> str ! i = squote)" "str ! i \<noteq> backtick"
        "Some (str ! i) \<noteq> opn" "str ! i \<noteq> cls"
    by blast
  then show ?case
  proof cases
    case quote
    with len "1.prems" have "findBalancedEnd_loop str opn cls depth (skipQuoted str i) \<noteq> - 1"
      and eq: "findBalancedEnd_loop str opn cls depth i
               = findBalancedEnd_loop str opn cls depth (skipQuoted str i)"
      by (simp_all add: findBalancedEnd_loop.simps [of str opn cls depth i])
    with "1.IH"(1) [OF len quote]
    have "int (skipQuoted str i) \<le> findBalancedEnd_loop str opn cls depth (skipQuoted str i)"
      by simp
    with eq skipQuoted_gt [of i str] show ?thesis by simp
  next
    case template
    with len "1.prems" have "findBalancedEnd_loop str opn cls depth (skipTemplate str i) \<noteq> - 1"
      and eq: "findBalancedEnd_loop str opn cls depth i
               = findBalancedEnd_loop str opn cls depth (skipTemplate str i)"
      by (simp_all add: findBalancedEnd_loop.simps [of str opn cls depth i])
    with "1.IH"(2) [OF len template]
    have "int (skipTemplate str i) \<le> findBalancedEnd_loop str opn cls depth (skipTemplate str i)"
      by simp
    with eq skipTemplate_gt [of i str] show ?thesis by simp
  next
    case opener
    with len "1.prems" have "findBalancedEnd_loop str opn cls (depth + 1) (i + 1) \<noteq> - 1"
      and eq: "findBalancedEnd_loop str opn cls depth i
               = findBalancedEnd_loop str opn cls (depth + 1) (i + 1)"
      by (simp_all add: findBalancedEnd_loop.simps [of str opn cls depth i])
    with "1.IH"(3) [OF len opener]
    have "int (i + 1) \<le> findBalancedEnd_loop str opn cls (depth + 1) (i + 1)"
      by simp
    with eq show ?thesis by simp
  next
    case closer
    show ?thesis
    proof (cases "depth - 1 = 0")
      case True
      with len closer show ?thesis
        by (subst findBalancedEnd_loop.simps) simp
    next
      case False
      with closer len "1.prems" have "findBalancedEnd_loop str opn cls (depth - 1) (i + 1) \<noteq> - 1"
        and eq: "findBalancedEnd_loop str opn cls depth i
                 = findBalancedEnd_loop str opn cls (depth - 1) (i + 1)"
        by (simp_all add: findBalancedEnd_loop.simps [of str opn cls depth i])
      with "1.IH"(4) [OF len closer False]
      have "int (i + 1) \<le> findBalancedEnd_loop str opn cls (depth - 1) (i + 1)"
        by simp
      with eq show ?thesis by simp
    qed
  next
    case other
    with len "1.prems" have "findBalancedEnd_loop str opn cls depth (i + 1) \<noteq> - 1"
      and eq: "findBalancedEnd_loop str opn cls depth i
               = findBalancedEnd_loop str opn cls depth (i + 1)"
      by (simp_all add: findBalancedEnd_loop.simps [of str opn cls depth i])
    with "1.IH"(5) [OF len other]
    have "int (i + 1) \<le> findBalancedEnd_loop str opn cls depth (i + 1)"
      by simp
    with eq show ?thesis by simp
  qed
qed

lemma findBalancedEnd_ge:
  "findBalancedEnd str pos \<noteq> - 1 \<Longrightarrow> int pos \<le> findBalancedEnd str pos"
  unfolding findBalancedEnd_def by (rule findBalancedEnd_loop_ge)

section \<open>Property locator\<close>

text \<open>
  The characters at which the token-skipping loop of \<^verbatim>\<open>extractProp\<close> stops:
  the class \<^verbatim>\<open>[\s{[`"',}\]]\<close>.
\<close>

definition is_delim :: "char \<Rightarrow> bool" where
  "is_delim c = (is_space c \<or> c = CHR ''{'' \<or> c = CHR ''['' \<or> c = backtick \<or> c = dquote
                 \<or> c = squote \<or> c = CHR '','' \<or> c = CHR ''}'' \<or> c = CHR '']'')"

text \<open>
  The test at offset \<open>i\<close>: the text there is \<open>name\<close>, followed by spaces and a colon.
  The result is the offset \<open>j\<close> where the value starts (after the colon and the spaces
  that follow it).
\<close>

definition prop_match :: "string \<Rightarrow> string \<Rightarrow> nat \<Rightarrow> nat option" where
  "prop_match body name i =
     (if substring body i (i + length name) = name then
        (let j = scan_while (\<lambda>c. c = CHR '' '') body (i + length name) in
         if charAt body j = Some (CHR '':'')
         then Some (scan_while (\<lambda>c. c = CHR '' '') body (j + 1))
         else None)
      else None)"

text \<open>
  The extent \<open>end\<close> of the value that starts at \<open>j\<close>. When \<^verbatim>\<open>findBalancedEnd\<close>
  returns \<open>-1\<close>, \<open>end\<close> is \<open>0\<close>.
\<close>

definition value_end :: "string \<Rightarrow> nat \<Rightarrow> nat" where
  "value_end body j =
     (if charAt body j = Some (CHR ''{'') then nat (findBalancedEnd body j + 1)
      else if charAt body j = Some (CHR ''['') then nat (findBalancedEnd body j + 1)
      else if charAt body j = Some backtick then skipTemplate body j
      else if charAt body j = Some dquote \<or> charAt body j = Some squote then skipQuoted body j
      else scan_while (\<lambda>c. c \<noteq> CHR '','' \<and> c \<noteq> newline) body j)"

text \<open>
  The tail of the loop body, reached when the property does not start at \<open>i\<close>
  (\<open>i < length body\<close>): the next value of \<open>i\<close>. When \<^verbatim>\<open>findBalancedEnd\<close>
  returns \<open>-1\<close> the next offset is \<open>0\<close>.
\<close>

definition advance :: "string \<Rightarrow> nat \<Rightarrow> nat" where
  "advance body i =
     (if body ! i = CHR ''{'' then nat (findBalancedEnd body i + 1)
      else if body ! i = CHR ''['' then nat (findBalancedEnd body i + 1)
      else if body ! i = backtick then skipTemplate body i
      else if body ! i = dquote \<or> body ! i = squote then skipQuoted body i
      else (let i' = scan_while (\<lambda>c. \<not> is_delim c) body i
            in if i' < length body \<and> (body ! i' = CHR '','' \<or> body ! i' = CHR '':'')
               then i' + 1 else i'))"

text \<open>
  The main loop of \<^verbatim>\<open>extractProp\<close>. It need not terminate, so it is a partial
  function: \<open>None\<close> is a run that never returns, \<open>Some None\<close> is the result
  \<^verbatim>\<open>null\<close>, and \<open>Some (Some v)\<close> is the result \<^verbatim>\<open>{ value: v }\<close>.
\<close>

partial_function (option) extractProp_loop :: "string \<Rightarrow> string \<Rightarrow> nat \<Rightarrow> string option option"
  where
  "extractProp_loop body name i0 =
     (if i0 < length body then
        (let i = scan_while is_space body i0 in
         if length body \<le> i then Some None
         else
           (case prop_match body name i of
              Some j \<Rightarrow> Some (Some (substring body j (value_end body j)))
            | None \<Rightarrow> extractProp_loop body name (advance body i)))
      else Some None)"

declare extractProp_loop.simps [code]

definition extractProp :: "string \<Rightarrow> string \<Rightarrow> string option option" where
  "extractProp body name = extractProp_loop body name 0"

section \<open>Indentation model\<close>

text \<open>\<^verbatim>\<open>text.split('\n')\<close> and \<^verbatim>\<open>lines.join('\n')\<close>.\<close>

fun split_lines :: "string \<Rightarrow> string list" where
  "split_lines [] = [[]]"
| "split_lines (c # cs) =
     (if c = newline then [] # split_lines cs
      else (case split_lines cs of
              [] \<Rightarrow> [[c]]
            | line # rest \<Rightarrow> (c # line) # rest))"

fun join_lines :: "string list \<Rightarrow> string" where
  "join_lines [] = []"
| "join_lines [l] = l"
| "join_lines (l # ls) = l @ newline # join_lines ls"

text \<open>\<^verbatim>\<open>s.trim()\<close>.\<close>

definition trim :: "string \<Rightarrow> string" where
  "trim s = rev (dropWhile is_space (rev (dropWhile is_space s)))"

text \<open>
  \<^verbatim>\<open>reindentLines(text, extra)\<close>: the line of index 0 and the blank lines are kept,
  every other line is prefixed with \<open>extra\<close>.
\<close>

definition reindentLines :: "string \<Rightarrow> string \<Rightarrow> string" where
  "reindentLines text extra =
     join_lines
       (map (\<lambda>(idx, line). if idx = 0 \<or> trim line = [] then line else extra @ line)
          (enumerate 0 (split_lines text)))"

definition detectIndentUnit :: "string \<Rightarrow> string" where
  "detectIndentUnit content = (if str_includes content [newline, tab] then [tab] else ''  '')"

section \<open>Structural rewrite driver\<close>

text \<open>
  The \<^verbatim>\<open>for\<close> loop that looks for the first element of the array, from \<open>bi + 1\<close>:
  \<open>None\<close> is \<^verbatim>\<open>elemStart === -1\<close>.
\<close>

function find_elem_start :: "string \<Rightarrow> nat \<Rightarrow> nat option" where
  "find_elem_start content i =
     (if i < length content then
        (if content ! i = CHR ''{'' then Some i
         else if content ! i = CHR '']'' then None
         else if \<not> is_space (content ! i) then None
         else find_elem_start content (i + 1))
      else None)"
  by pat_completeness auto
termination
  by (relation "measure (\<lambda>(content, i). length content - i)") auto

declare find_elem_start.simps [simp del]

text \<open>
  \<^verbatim>\<open>let ls = elemStart; while (ls > 0 && content[ls - 1] !== '\n') ls--;\<close>
\<close>

fun line_start :: "string \<Rightarrow> nat \<Rightarrow> nat" where
  "line_start content 0 = 0"
| "line_start content (Suc k) =
     (if charAt content k \<noteq> Some newline then line_start content k else Suc k)"

text \<open>
  The replacement text \<^verbatim>\<open>newElem\<close>, from the indentation of the element, the
  indent unit and the three extracted values.
\<close>

definition newElem :: "string \<Rightarrow> string \<Rightarrow> string \<Rightarrow> string \<Rightarrow> string \<Rightarrow> string" where
  "newElem elemIndent unit targets val message =
     (let i1 = elemIndent @ unit;
          i2 = i1 @ unit;
          i3 = i2 @ unit;
          i4 = i3 @ unit;
          extra = concat (replicate 3 unit)
      in elemIndent @ ''{'' @ [newline] @
         i1 @ ''deliveryDiscountsAdd: {'' @ [newline] @
         i2 @ ''selectionStrategy: '' @ [dquote] @ ''ALL'' @ [dquote] @ '','' @ [newline] @
         i2 @ ''candidates: ['' @ [newline] @
         i3 @ ''{'' @ [newline] @
         i4 @ ''targets: '' @ reindentLines targets extra @ '','' @ [newline] @
         i4 @ ''value: '' @ reindentLines val extra @ '','' @ [newline] @
         i4 @ ''message: '' @ trim message @ '','' @ [newline] @
         i4 @ ''associatedDiscountCode: null,'' @ [newline] @
         i3 @ ''},'' @ [newline] @
         i2 @ ''],'' @ [newline] @
         i1 @ ''},'' @ [newline] @
         elemIndent @ ''}'')"

text \<open>
  One pass through the body of the \<^verbatim>\<open>while\<close> loop of
  \<^verbatim>\<open>rewriteShippingDiscountOutput\<close>, for \<open>searchFrom < length content\<close>:
  \<open>Continue n\<close> is \<^verbatim>\<open>searchFrom = n; continue\<close>, \<open>Break\<close> is \<^verbatim>\<open>break\<close>,
  \<open>Return r\<close> is \<^verbatim>\<open>return r\<close>, and \<open>None\<close> is a call of \<^verbatim>\<open>extractProp\<close>
  that never returns.
\<close>

datatype outcome = Continue nat | Break | Return string

definition rewrite_iteration :: "string \<Rightarrow> string \<Rightarrow> nat \<Rightarrow> outcome option" where
  "rewrite_iteration content unit searchFrom =
     (let idx = indexOf content ''operations:'' searchFrom in
      if idx = - 1 then Some Break
      else
        (let bi = scan_while is_space content (nat idx + length ''operations:'') in
         if charAt content bi \<noteq> Some (CHR ''['') then Some (Continue bi)
         else
           (case find_elem_start content (bi + 1) of
              None \<Rightarrow> Some (Continue (bi + 1))
            | Some elemStart \<Rightarrow>
                (let elemEnd = findBalancedEnd content elemStart in
                 if elemEnd = - 1 then Some (Continue (elemStart + 1))
                 else
                   (let body = substring content (elemStart + 1) (nat elemEnd) in
                    if str_includes body ''deliveryDiscountsAdd''
                    then Some (Continue (nat elemEnd + 1))
                    else
                      (case extractProp body ''value'' of
                         None \<Rightarrow> None
                       | Some valueP \<Rightarrow>
                      (case extractProp body ''targets'' of
                         None \<Rightarrow> None
                       | Some targetsP \<Rightarrow>
                      (case extractProp body ''message'' of
                         None \<Rightarrow> None
                       | Some messageP \<Rightarrow>
                      (case (valueP, targetsP, messageP) of
                         (Some v, Some t, Some m) \<Rightarrow>
                           (let ls = line_start content elemStart;
                                elemIndent = takeWhile is_space (substring content ls elemStart)
                            in Some (Return (substring content 0 ls
                                             @ newElem elemIndent unit t v m
                                             @ drop (nat elemEnd + 1) content)))
                       | _ \<Rightarrow> Some (Continue (nat elemEnd + 1)))))))))))"

lemma find_elem_start_ge: "find_elem_start content i = Some e \<Longrightarrow> i \<le> e"
proof (induction content i rule: find_elem_start.induct)
  case (1 content i)
  from "1.prems" show ?case
    using "1.IH"
    by (subst (asm) find_elem_start.simps) (auto split: if_splits dest: add_leD1)
qed

lemma rewrite_iteration_Continue:
  assumes "rewrite_iteration content unit searchFrom = Some (Continue n)"
  shows "searchFrom < n"
proof -
  define idx where "idx = indexOf content ''operations:'' searchFrom"
  define bi where "bi = scan_while is_space content (nat idx + length ''operations:'')"
  from assms have idx: "idx \<noteq> - 1"
    by (auto simp: rewrite_iteration_def idx_def Let_def split: if_splits)
  then have "int searchFrom \<le> idx"
    unfolding idx_def by (rule indexOf_ge)
  moreover have "nat idx + length ''operations:'' \<le> bi"
    unfolding bi_def by (rule scan_while_ge)
  ultimately have bi: "searchFrom < bi"
    by simp
  show ?thesis
  proof (cases "charAt content bi \<noteq> Some (CHR ''['')")
    case True
    with assms idx bi show ?thesis
      unfolding rewrite_iteration_def Let_def idx_def [symmetric] bi_def [symmetric]
      by simp
  next
    case bracket: False
    show ?thesis
    proof (cases "find_elem_start content (bi + 1)")
      case None
      with assms idx bi bracket show ?thesis
        unfolding rewrite_iteration_def Let_def idx_def [symmetric] bi_def [symmetric]
        by auto
    next
      case (Some elemStart)
      then have es: "bi < elemStart"
        using find_elem_start_ge [of content "bi + 1" elemStart] by simp
      show ?thesis
      proof (cases "findBalancedEnd content elemStart = - 1")
        case True
        with assms idx bi bracket Some es show ?thesis
          unfolding rewrite_iteration_def Let_def idx_def [symmetric] bi_def [symmetric]
          by auto
      next
        case False
        then have "int elemStart \<le> findBalancedEnd content elemStart"
          by (rule findBalancedEnd_ge)
        with es bi have "searchFrom < nat (findBalancedEnd content elemStart) + 1"
          by linarith
        with assms idx bracket Some False show ?thesis
          unfolding rewrite_iteration_def Let_def idx_def [symmetric] bi_def [symmetric]
          by (auto split: if_splits option.splits)
      qed
    qed
  qed
qed

text \<open>
  The \<^verbatim>\<open>while (searchFrom < content.length)\<close> loop; when it ends without a
  \<^verbatim>\<open>return\<close> the function returns \<open>content\<close>. Every \<open>Continue n\<close> moves
  the cursor forward, so the loop itself is a terminating recursion.
\<close>

function rewrite_loop :: "string \<Rightarrow> string \<Rightarrow> nat \<Rightarrow> string option" where
  "rewrite_loop content unit searchFrom =
     (if searchFrom < length content then
        (case rewrite_iteration content unit searchFrom of
           None \<Rightarrow> None
         | Some Break \<Rightarrow> Some content
         | Some (Return r) \<Rightarrow> Some r
         | Some (Continue n) \<Rightarrow> rewrite_loop content unit n)
      else Some content)"
  by pat_completeness auto
termination
proof (relation "measure (\<lambda>(content, unit, searchFrom). length content - searchFrom)", goal_cases)
  case (2 content unit searchFrom x n)
  then show ?case
    using rewrite_iteration_Continue [of content unit searchFrom n] by simp
qed simp

declare rewrite_loop.simps [simp del]

text \<open>
  \<^verbatim>\<open>rewriteShippingDiscountOutput(content)\<close>: \<open>None\<close> is a call that never
  returns, \<open>Some r\<close> is the returned string.
\<close>

definition rewriteShippingDiscountOutput :: "string \<Rightarrow> string option" where
  "rewriteShippingDiscountOutput content =
     (if str_includes content ''deliveryDiscountsAdd'' then Some content
      else rewrite_loop content (detectIndentUnit content) 0)"

section \<open>Notions of the specification\<close>

text \<open>
  The claims speak of closing quotes, of balanced text and of object bodies with
  properties at depth zero. These notions are defined here, on the text itself and not
  through the scanner, for the theorems below to compare the scanner with.
\<close>

subsection \<open>Quoted literals\<close>

text \<open>
  The closing quote of a quoted literal, as the specification words it: \<open>s\<close> is the
  text after the opening quote \<open>q\<close>; a backslash consumes the character after it, whatever
  it is; the first \<open>q\<close> met otherwise closes the literal. The result is the offset of
  that \<open>q\<close> in \<open>s\<close>, or \<open>None\<close> for an unterminated literal.
\<close>

fun closing_quote :: "char \<Rightarrow> string \<Rightarrow> nat option" where
  "closing_quote q [] = None"
| "closing_quote q [c] = (if c \<noteq> backslash \<and> c = q then Some 0 else None)"
| "closing_quote q (c # d # cs) =
     (if c = backslash then map_option (\<lambda>k. k + 2) (closing_quote q cs)
      else if c = q then Some 0
      else map_option Suc (closing_quote q (d # cs)))"

text \<open>
  An unterminated literal ends on a dangling escape when, read in the same way, the last
  character of \<open>s\<close> is a backslash met as an escape: there is no character left for it
  to consume. A backslash that is itself escaped is not one.
\<close>

fun dangling_escape :: "char \<Rightarrow> string \<Rightarrow> bool" where
  "dangling_escape q [] = False"
| "dangling_escape q [c] = (c = backslash)"
| "dangling_escape q (c # d # cs) =
     (if c = backslash then dangling_escape q cs
      else if c = q then False
      else dangling_escape q (d # cs))"

text \<open>
  The content of a quoted literal with delimiter \<open>q\<close>: no unescaped \<open>q\<close>, and every
  backslash is followed by a character, which it escapes.
\<close>

fun escaped_content :: "char \<Rightarrow> string \<Rightarrow> bool" where
  "escaped_content q [] = True"
| "escaped_content q [c] = (c \<noteq> backslash \<and> c \<noteq> q)"
| "escaped_content q (c # d # cs) =
     (if c = backslash then escaped_content q cs else c \<noteq> q \<and> escaped_content q (d # cs))"

subsection \<open>Balanced text\<close>

text \<open>
  Text in which braces and brackets are properly nested and quoted literals are closed:
  the interior of a child object or array. A quoted literal may hold any bracket. Template
  literals are left out.
\<close>

definition structural :: "char \<Rightarrow> bool" where
  "structural c = (c = CHR ''{'' \<or> c = CHR ''}'' \<or> c = CHR ''['' \<or> c = CHR '']''
                   \<or> c = dquote \<or> c = squote \<or> c = backtick)"

inductive balanced :: "string \<Rightarrow> bool" where
  Nil: "balanced []"
| Plain: "\<not> structural c \<Longrightarrow> balanced s \<Longrightarrow> balanced (c # s)"
| Brace: "balanced s \<Longrightarrow> balanced t \<Longrightarrow> balanced (CHR ''{'' # s @ CHR ''}'' # t)"
| Bracket: "balanced s \<Longrightarrow> balanced t \<Longrightarrow> balanced (CHR ''['' # s @ CHR '']'' # t)"
| Quote: "q = dquote \<or> q = squote \<Longrightarrow> escaped_content q s \<Longrightarrow> balanced t \<Longrightarrow>
          balanced (q # s @ q # t)"

subsection \<open>Object bodies\<close>

text \<open>The characters of keys and of simple values: no delimiter of the token scan, no colon.\<close>

definition ident_char :: "char \<Rightarrow> bool" where
  "ident_char c = (\<not> is_delim c \<and> c \<noteq> CHR '':'')"

text \<open>
  The values of an object body: a simple token (an identifier or a number), a quoted
  literal, and a child object or array, given by the text between its delimiters.
\<close>

datatype jsvalue = Token string | Literal char string | Braces string | Brackets string

fun render_value :: "jsvalue \<Rightarrow> string" where
  "render_value (Token t) = t"
| "render_value (Literal q s) = q # s @ [q]"
| "render_value (Braces s) = CHR ''{'' # s @ ''}''"
| "render_value (Brackets s) = CHR ''['' # s @ '']''"

fun wf_value :: "jsvalue \<Rightarrow> bool" where
  "wf_value (Token t) = (t \<noteq> [] \<and> (\<forall>c\<in>set t. ident_char c))"
| "wf_value (Literal q s) = ((q = dquote \<or> q = squote) \<and> escaped_content q s)"
| "wf_value (Braces s) = balanced s"
| "wf_value (Brackets s) = balanced s"

text \<open>
  A property: whitespace, the key, a colon, spaces (or none), the value. The properties
  of a body are separated by commas.
\<close>

datatype member = Member (lead: string) (key: string) (gap: string) (val: jsvalue)

definition render_member :: "member \<Rightarrow> string" where
  "render_member m = lead m @ key m @ '':'' @ gap m @ render_value (val m)"

definition wf_member :: "member \<Rightarrow> bool" where
  "wf_member m =
     ((\<forall>c\<in>set (lead m). is_space c) \<and> key m \<noteq> [] \<and> (\<forall>c\<in>set (key m). ident_char c)
      \<and> (\<forall>c\<in>set (gap m). c = CHR '' '') \<and> wf_value (val m))"

fun render_members :: "member list \<Rightarrow> string" where
  "render_members [] = []"
| "render_members [m] = render_member m"
| "render_members (m # ms) = render_member m @ '','' @ render_members ms"

section \<open>Occurrences of a pattern\<close>

text \<open>
  \<^verbatim>\<open>includes\<close> and \<^verbatim>\<open>indexOf\<close> decide whether the pattern occurs in the buffer.
\<close>

lemma indexOf_none_iff:
  "indexOf str pat i = - 1 \<longleftrightarrow>
     (\<forall>k\<ge>i. k + length pat \<le> length str \<longrightarrow> take (length pat) (drop k str) \<noteq> pat)"
proof (induction str pat i rule: indexOf.induct)
  case (1 str pat i)
  show ?case
  proof (cases "length str < i + length pat")
    case True
    then show ?thesis
      by (subst indexOf.simps) auto
  next
    case inside: False
    show ?thesis
    proof (cases "take (length pat) (drop i str) = pat")
      case True
      with inside show ?thesis
        by (subst indexOf.simps) auto
    next
      case False
      have "indexOf str pat i = indexOf str pat (i + 1)"
        using inside False by (subst indexOf.simps) simp
      also have "\<dots> = - 1 \<longleftrightarrow>
          (\<forall>k\<ge>i + 1. k + length pat \<le> length str \<longrightarrow> take (length pat) (drop k str) \<noteq> pat)"
        using "1.IH" inside False by simp
      also have "\<dots> \<longleftrightarrow>
          (\<forall>k\<ge>i. k + length pat \<le> length str \<longrightarrow> take (length pat) (drop k str) \<noteq> pat)"
      proof
        assume r: "\<forall>k\<ge>i + 1. k + length pat \<le> length str \<longrightarrow> take (length pat) (drop k str) \<noteq> pat"
        show "\<forall>k\<ge>i. k + length pat \<le> length str \<longrightarrow> take (length pat) (drop k str) \<noteq> pat"
        proof (intro allI impI)
          fix k assume "i \<le> k" "k + length pat \<le> length str"
          then consider "k = i" | "i + 1 \<le> k" by linarith
          then show "take (length pat) (drop k str) \<noteq> pat"
            using False r \<open>k + length pat \<le> length str\<close> by cases auto
        qed
      next
        assume "\<forall>k\<ge>i. k + length pat \<le> length str \<longrightarrow> take (length pat) (drop k str) \<noteq> pat"
        then show "\<forall>k\<ge>i + 1. k + length pat \<le> length str \<longrightarrow> take (length pat) (drop k str) \<noteq> pat"
          by simp
      qed
      finally show ?thesis .
    qed
  qed
qed

lemma occurs_iff:
  "(\<exists>pre post. str = pre @ pat @ post) \<longleftrightarrow>
     (\<exists>k. k + length pat \<le> length str \<and> take (length pat) (drop k str) = pat)"
proof
  assume "\<exists>pre post. str = pre @ pat @ post"
  then obtain pre post where "str = pre @ pat @ post" by blast
  then have "length pre + length pat \<le> length str \<and> take (length pat) (drop (length pre) str) = pat"
    by simp
  then show "\<exists>k. k + length pat \<le> length str \<and> take (length pat) (drop k str) = pat"
    by blast
next
  assume "\<exists>k. k + length pat \<le> length str \<and> take (length pat) (drop k str) = pat"
  then obtain k where k: "take (length pat) (drop k str) = pat" by blast
  have "str = take k str @ drop k str"
    by simp
  also have "drop k str = take (length pat) (drop k str) @ drop (length pat) (drop k str)"
    by (simp only: append_take_drop_id)
  finally have "str = take k str @ take (length pat) (drop k str) @ drop (length pat) (drop k str)" .
  with k have "str = take k str @ pat @ drop (length pat) (drop k str)"
    by simp
  then show "\<exists>pre post. str = pre @ pat @ post" by blast
qed

lemma str_includes_iff: "str_includes str pat \<longleftrightarrow> (\<exists>pre post. str = pre @ pat @ post)"
  unfolding str_includes_def indexOf_none_iff occurs_iff by auto

section \<open>The guards of the driver\<close>

text \<open>
  Claim C10. A buffer that contains the marker \<^verbatim>\<open>deliveryDiscountsAdd\<close> anywhere
  (before any text \<open>pre\<close>, after any text \<open>post\<close>, inside a candidate site or not) is
  returned as it is: the first statement of \<^verbatim>\<open>rewriteShippingDiscountOutput\<close> tests
  the whole buffer, so no site of such a buffer is rewritten.
\<close>

theorem marker_guard_global:
  "rewriteShippingDiscountOutput (pre @ ''deliveryDiscountsAdd'' @ post)
     = Some (pre @ ''deliveryDiscountsAdd'' @ post)"
proof -
  have "str_includes (pre @ ''deliveryDiscountsAdd'' @ post) ''deliveryDiscountsAdd''"
    unfolding str_includes_iff by blast
  then show ?thesis
    by (simp add: rewriteShippingDiscountOutput_def)
qed

text \<open>
  An instance: the marker occurs in a comment only, and the flat element below it, which
  the loop would rewrite, is left alone.
\<close>

theorem marker_guard_global_witness:
  "rewriteShippingDiscountOutput
     (''// deliveryDiscountsAdd'' @ [newline] @ ''operations: [{ value: 1, targets: 2, message: 3 }]'')
   = Some (''// deliveryDiscountsAdd'' @ [newline] @ ''operations: [{ value: 1, targets: 2, message: 3 }]'')"
  using marker_guard_global [of "''// ''" "[newline] @ ''operations: [{ value: 1, targets: 2, message: 3 }]''"]
  by simp

text \<open>
  Claim C9. A buffer with no occurrence of the anchor keyword \<^verbatim>\<open>operations:\<close> is
  returned unchanged.
\<close>

theorem no_anchor_unchanged:
  assumes "\<nexists>pre post. content = pre @ ''operations:'' @ post"
  shows "rewriteShippingDiscountOutput content = Some content"
proof -
  from assms have "\<not> str_includes content ''operations:''"
    by (simp add: str_includes_iff)
  then have "indexOf content ''operations:'' 0 = - 1"
    by (simp add: str_includes_def)
  then have "rewrite_iteration content unit 0 = Some Break" for unit
    by (simp add: rewrite_iteration_def)
  then have "rewrite_loop content unit 0 = Some content" for unit
    by (subst rewrite_loop.simps) simp
  then show ?thesis
    by (simp add: rewriteShippingDiscountOutput_def)
qed

text \<open>An instance of C9: a buffer that still uses the old key.\<close>

theorem no_anchor_unchanged_witness:
  "(\<nexists>pre post. ''return { discounts: [] };'' = pre @ ''operations:'' @ post)
   \<and> rewriteShippingDiscountOutput ''return { discounts: [] };'' = Some ''return { discounts: [] };''"
proof -
  have "\<not> str_includes ''return { discounts: [] };'' ''operations:''"
    by code_simp
  then have h: "\<nexists>pre post. ''return { discounts: [] };'' = pre @ ''operations:'' @ post"
    by (simp only: str_includes_iff not_False_eq_True)
  from h no_anchor_unchanged [OF h] show ?thesis by blast
qed

section \<open>The marker in every rewritten buffer\<close>








lemma rewrite_first_iteration:
  assumes "\<not> str_includes content ''deliveryDiscountsAdd''"
    and "0 < length content"
    and "rewrite_iteration content (detectIndentUnit content) 0 = Some (Return r)"
  shows "rewriteShippingDiscountOutput content = Some r"
  using assms unfolding rewriteShippingDiscountOutput_def
  by (subst rewrite_loop.simps) simp


section \<open>Idempotence\<close>





section \<open>The end-to-end scenario\<close>

text \<open>
  Claim C2. On the flat one-line input of the scenario the function returns a buffer that
  holds the \<^verbatim>\<open>deliveryDiscountsAdd\<close> wrapper with \<^verbatim>\<open>selectionStrategy: "ALL"\<close>,
  a \<^verbatim>\<open>candidates\<close> list of one element with the texts of \<^verbatim>\<open>targets\<close>,
  \<^verbatim>\<open>value\<close> and \<^verbatim>\<open>message\<close> as they were extracted, and the added field
  \<^verbatim>\<open>associatedDiscountCode: null\<close>; applied to that buffer the function returns it
  unchanged. The returned buffer is stated in full.
\<close>

theorem end_to_end_scenario:
  \<open>rewriteShippingDiscountOutput
     ''return { operations: [{ value: { percentage: { value: 10 } }, targets: [{ deliveryOption: { handle: "h" } }], message: "10% off shipping" }] };''
   = Some ''{\<newline>  deliveryDiscountsAdd: {\<newline>    selectionStrategy: "ALL",\<newline>    candidates: [\<newline>      {\<newline>        targets: [{ deliveryOption: { handle: "h" } }],\<newline>        value: { percentage: { value: 10 } },\<newline>        message: "10% off shipping",\<newline>        associatedDiscountCode: null,\<newline>      },\<newline>    ],\<newline>  },\<newline>}] };''
   \<and> rewriteShippingDiscountOutput
     ''{\<newline>  deliveryDiscountsAdd: {\<newline>    selectionStrategy: "ALL",\<newline>    candidates: [\<newline>      {\<newline>        targets: [{ deliveryOption: { handle: "h" } }],\<newline>        value: { percentage: { value: 10 } },\<newline>        message: "10% off shipping",\<newline>        associatedDiscountCode: null,\<newline>      },\<newline>    ],\<newline>  },\<newline>}] };''
   = Some ''{\<newline>  deliveryDiscountsAdd: {\<newline>    selectionStrategy: "ALL",\<newline>    candidates: [\<newline>      {\<newline>        targets: [{ deliveryOption: { handle: "h" } }],\<newline>        value: { percentage: { value: 10 } },\<newline>        message: "10% off shipping",\<newline>        associatedDiscountCode: null,\<newline>      },\<newline>    ],\<newline>  },\<newline>}] };''\<close>
proof (rule conjI)
  show \<open>rewriteShippingDiscountOutput
     ''return { operations: [{ value: { percentage: { value: 10 } }, targets: [{ deliveryOption: { handle: "h" } }], message: "10% off shipping" }] };''
   = Some ''{\<newline>  deliveryDiscountsAdd: {\<newline>    selectionStrategy: "ALL",\<newline>    candidates: [\<newline>      {\<newline>        targets: [{ deliveryOption: { handle: "h" } }],\<newline>        value: { percentage: { value: 10 } },\<newline>        message: "10% off shipping",\<newline>        associatedDiscountCode: null,\<newline>      },\<newline>    ],\<newline>  },\<newline>}] };''\<close>
  proof (rule rewrite_first_iteration)
    show \<open>\<not> str_includes
       ''return { operations: [{ value: { percentage: { value: 10 } }, targets: [{ deliveryOption: { handle: "h" } }], message: "10% off shipping" }] };''
       ''deliveryDiscountsAdd''\<close>
      by code_simp
    show \<open>0 < length
       ''return { operations: [{ value: { percentage: { value: 10 } }, targets: [{ deliveryOption: { handle: "h" } }], message: "10% off shipping" }] };''\<close>
      by simp
    show \<open>rewrite_iteration
       ''return { operations: [{ value: { percentage: { value: 10 } }, targets: [{ deliveryOption: { handle: "h" } }], message: "10% off shipping" }] };''
       (detectIndentUnit
         ''return { operations: [{ value: { percentage: { value: 10 } }, targets: [{ deliveryOption: { handle: "h" } }], message: "10% off shipping" }] };'') 0
     = Some (Return ''{\<newline>  deliveryDiscountsAdd: {\<newline>    selectionStrategy: "ALL",\<newline>    candidates: [\<newline>      {\<newline>        targets: [{ deliveryOption: { handle: "h" } }],\<newline>        value: { percentage: { value: 10 } },\<newline>        message: "10% off shipping",\<newline>        associatedDiscountCode: null,\<newline>      },\<newline>    ],\<newline>  },\<newline>}] };'')\<close>
      by code_simp
  qed
  have \<open>str_includes
     ''{\<newline>  deliveryDiscountsAdd: {\<newline>    selectionStrategy: "ALL",\<newline>    candidates: [\<newline>      {\<newline>        targets: [{ deliveryOption: { handle: "h" } }],\<newline>        value: { percentage: { value: 10 } },\<newline>        message: "10% off shipping",\<newline>        associatedDiscountCode: null,\<newline>      },\<newline>    ],\<newline>  },\<newline>}] };''
     ''deliveryDiscountsAdd''\<close>
    by code_simp
  then show \<open>rewriteShippingDiscountOutput
     ''{\<newline>  deliveryDiscountsAdd: {\<newline>    selectionStrategy: "ALL",\<newline>    candidates: [\<newline>      {\<newline>        targets: [{ deliveryOption: { handle: "h" } }],\<newline>        value: { percentage: { value: 10 } },\<newline>        message: "10% off shipping",\<newline>        associatedDiscountCode: null,\<newline>      },\<newline>    ],\<newline>  },\<newline>}] };''
   = Some ''{\<newline>  deliveryDiscountsAdd: {\<newline>    selectionStrategy: "ALL",\<newline>    candidates: [\<newline>      {\<newline>        targets: [{ deliveryOption: { handle: "h" } }],\<newline>        value: { percentage: { value: 10 } },\<newline>        message: "10% off shipping",\<newline>        associatedDiscountCode: null,\<newline>      },\<newline>    ],\<newline>  },\<newline>}] };''\<close>
    unfolding rewriteShippingDiscountOutput_def by (simp only: if_True)
qed

section \<open>The splice\<close>

text \<open>
  Claim C1. The claim is that the returned buffer is the input with the span from
  \<open>elemStart\<close> to \<open>elemEnd\<close> replaced, every character before \<open>elemStart\<close> being
  kept. The function returns \<^verbatim>\<open>content.substring(0, ls) + newElem + ...\<close>, where
  \<open>ls\<close> is the start of the line of \<open>elemStart\<close>: on the buffer below the element
  starts at offset 13, after \<^verbatim>\<open>operations: [\<close> on the same line, and the returned
  buffer has lost these 13 characters.
\<close>

theorem splice_drops_line_prefix:
  \<open>find_elem_start ''operations: [{ value: 1, targets: 2, message: 3 }]'' 13 = Some 13
   \<and> findBalancedEnd ''operations: [{ value: 1, targets: 2, message: 3 }]'' 13 = 48
   \<and> rewriteShippingDiscountOutput ''operations: [{ value: 1, targets: 2, message: 3 }]''
     = Some ''{\<newline>  deliveryDiscountsAdd: {\<newline>    selectionStrategy: "ALL",\<newline>    candidates: [\<newline>      {\<newline>        targets: 2,\<newline>        value: 1,\<newline>        message: 3,\<newline>        associatedDiscountCode: null,\<newline>      },\<newline>    ],\<newline>  },\<newline>}]''\<close>
proof (intro conjI)
  show \<open>find_elem_start ''operations: [{ value: 1, targets: 2, message: 3 }]'' 13 = Some 13\<close>
    by code_simp
  show \<open>findBalancedEnd ''operations: [{ value: 1, targets: 2, message: 3 }]'' 13 = 48\<close>
    by code_simp
  show \<open>rewriteShippingDiscountOutput ''operations: [{ value: 1, targets: 2, message: 3 }]''
     = Some ''{\<newline>  deliveryDiscountsAdd: {\<newline>    selectionStrategy: "ALL",\<newline>    candidates: [\<newline>      {\<newline>        targets: 2,\<newline>        value: 1,\<newline>        message: 3,\<newline>        associatedDiscountCode: null,\<newline>      },\<newline>    ],\<newline>  },\<newline>}]''\<close>
  proof (rule rewrite_first_iteration)
    show \<open>\<not> str_includes ''operations: [{ value: 1, targets: 2, message: 3 }]''
            ''deliveryDiscountsAdd''\<close>
      by code_simp
    show \<open>0 < length ''operations: [{ value: 1, targets: 2, message: 3 }]''\<close>
      by simp
    show \<open>rewrite_iteration ''operations: [{ value: 1, targets: 2, message: 3 }]''
       (detectIndentUnit ''operations: [{ value: 1, targets: 2, message: 3 }]'') 0
     = Some (Return ''{\<newline>  deliveryDiscountsAdd: {\<newline>    selectionStrategy: "ALL",\<newline>    candidates: [\<newline>      {\<newline>        targets: 2,\<newline>        value: 1,\<newline>        message: 3,\<newline>        associatedDiscountCode: null,\<newline>      },\<newline>    ],\<newline>  },\<newline>}]'')\<close>
      by code_simp
  qed
qed

section \<open>Runs that never return\<close>

text \<open>
  When \<^verbatim>\<open>findBalancedEnd\<close> returns \<open>-1\<close> in the loop of \<^verbatim>\<open>extractProp\<close>,
  the cursor becomes \<open>-1 + 1 = 0\<close> and the scan starts again. A set of cursor values
  that the loop body maps into itself, without a match, is a cycle: the loop never returns.
\<close>

lemma extractProp_loop_cycle:
  assumes cycle: "\<And>i. i \<in> S \<Longrightarrow>
      i < length body \<and> scan_while is_space body i < length body
      \<and> prop_match body name (scan_while is_space body i) = None
      \<and> advance body (scan_while is_space body i) \<in> S"
    and start: "i \<in> S"
  shows "extractProp_loop body name i = None"
proof (rule ccontr)
  assume "extractProp_loop body name i \<noteq> None"
  then obtain y where y: "extractProp_loop body name i = Some y"
    by auto
  have "\<not> (b = body \<and> n = name \<and> k \<in> S)" if "extractProp_loop b n k = Some r" for b n k r
  proof (rule extractProp_loop.raw_induct
      [where P = "\<lambda>b n k r. \<not> (b = body \<and> n = name \<and> k \<in> S)", OF _ that], goal_cases)
    case (1 f b n k r)
    show ?case
    proof
      assume in_cycle: "b = body \<and> n = name \<and> k \<in> S"
      with cycle [of k] "1"(2)
      have "f body name (advance body (scan_while is_space body k)) = Some r"
        by (simp add: Let_def)
      from "1"(1) [OF this] in_cycle cycle [of k] show False
        by simp
    qed
  qed
  from this [OF y] start show False
    by simp
qed

lemma extractProp_bracket_diverges: "extractProp ''['' ''value'' = None"
proof -
  have "scan_while is_space ''['' 0 = 0" by code_simp
  moreover have "prop_match ''['' ''value'' 0 = None" by code_simp
  moreover have "advance ''['' 0 = 0" by code_simp
  ultimately show ?thesis
    unfolding extractProp_def
    by (intro extractProp_loop_cycle [where S = "{0}"]) simp_all
qed

lemma extractProp_comment_diverges:
  "extractProp '' /* [ */ value: 1, targets: 2, message: 3 '' ''value'' = None"
proof -
  let ?b = "'' /* [ */ value: 1, targets: 2, message: 3 ''"
  have "scan_while is_space ?b 0 = 1" "scan_while is_space ?b 3 = 4" by code_simp+
  moreover have "prop_match ?b ''value'' 1 = None" "prop_match ?b ''value'' 4 = None" by code_simp+
  moreover have "advance ?b 1 = 3" "advance ?b 4 = 0" by code_simp+
  ultimately show ?thesis
    unfolding extractProp_def
    by (intro extractProp_loop_cycle [where S = "{0, 3}"]) auto
qed

lemma rewrite_iteration_diverges:
  assumes "indexOf content ''operations:'' searchFrom = int idx"
    and "scan_while is_space content (idx + length ''operations:'') = bi"
    and "charAt content bi = Some (CHR ''['')"
    and "find_elem_start content (bi + 1) = Some elemStart"
    and "findBalancedEnd content elemStart = int elemEnd"
    and "substring content (elemStart + 1) elemEnd = body"
    and "\<not> str_includes body ''deliveryDiscountsAdd''"
    and "extractProp body ''value'' = None"
  shows "rewrite_iteration content unit searchFrom = None"
  using assms unfolding rewrite_iteration_def Let_def by simp


text \<open>
  Claim C4. The claim is that \<^verbatim>\<open>extractProp\<close> and
  \<^verbatim>\<open>rewriteShippingDiscountOutput\<close> return on every string. They do not:
  \<^verbatim>\<open>extractProp("[", "value")\<close> never returns, and neither does
  \<^verbatim>\<open>rewriteShippingDiscountOutput\<close> on a buffer whose flat element holds a comment
  with an opening bracket.
\<close>

theorem not_total:
  "extractProp ''['' ''value'' = None
   \<and> rewriteShippingDiscountOutput ''operations: [{ /* [ */ value: 1, targets: 2, message: 3 }]'' = None"
proof -
  let ?c = "''operations: [{ /* [ */ value: 1, targets: 2, message: 3 }]''"
  have "\<not> str_includes ?c ''deliveryDiscountsAdd''" by code_simp
  moreover have "rewrite_iteration ?c (detectIndentUnit ?c) 0 = None"
  proof (rule rewrite_iteration_diverges)
    show "indexOf ?c ''operations:'' 0 = int 0" by code_simp
    show "scan_while is_space ?c (0 + length ''operations:'') = 12" by code_simp
    show "charAt ?c 12 = Some (CHR ''['')" by code_simp
    show "find_elem_start ?c (12 + 1) = Some 13" by code_simp
    show "findBalancedEnd ?c 13 = int 56" by code_simp
    show "substring ?c (13 + 1) 56 = '' /* [ */ value: 1, targets: 2, message: 3 ''" by code_simp
    show "\<not> str_includes '' /* [ */ value: 1, targets: 2, message: 3 '' ''deliveryDiscountsAdd''"
      by code_simp
    show "extractProp '' /* [ */ value: 1, targets: 2, message: 3 '' ''value'' = None"
      by (rule extractProp_comment_diverges)
  qed
  ultimately have "rewriteShippingDiscountOutput ?c = None"
    unfolding rewriteShippingDiscountOutput_def
    by (subst rewrite_loop.simps) simp
  with extractProp_bracket_diverges show ?thesis
    by (rule conjI)
qed

section \<open>The offsets returned by skipQuoted\<close>

lemma skipQuoted_loop_past_end: "length str \<le> i \<Longrightarrow> skipQuoted_loop str q i = i"
  by (subst skipQuoted_loop.simps) simp

lemma skipQuoted_loop_spec:
  "i \<le> length str \<Longrightarrow>
   (case closing_quote q (drop i str) of
      Some k \<Rightarrow> skipQuoted_loop str (Some q) i = i + k + 1 \<and> i + k < length str
                 \<and> str ! (i + k) = q
    | None \<Rightarrow> skipQuoted_loop str (Some q) i
               = length str + (if dangling_escape q (drop i str) then 1 else 0))"
proof (induction str "Some q" i rule: skipQuoted_loop.induct)
  case (1 str i)
  show ?case
  proof (cases "i < length str")
    case False
    with "1.prems" have "i = length str" by simp
    then show ?thesis
      by (simp add: skipQuoted_loop_past_end)
  next
    case True
    then have d: "drop i str = str ! i # drop (Suc i) str"
      by (simp add: Cons_nth_drop_Suc)
    show ?thesis
    proof (cases "Suc i < length str")
      case False
      with True have last: "Suc i = length str" by simp
      from last have e: "drop (Suc i) str = []" by simp
      have "skipQuoted_loop str (Some q) i =
          (if str ! i = backslash then i + 2 else i + 1)"
        using True last
        by (subst skipQuoted_loop.simps) (auto simp: skipQuoted_loop_past_end)
      with last [symmetric] show ?thesis
        by (auto simp: d e)
    next
      case two: True
      then have d2: "drop i str = str ! i # str ! (Suc i) # drop (Suc (Suc i)) str"
        by (simp only: d Cons_nth_drop_Suc [OF two, symmetric])
      consider (esc) "str ! i = backslash"
        | (close) "str ! i \<noteq> backslash" "str ! i = q"
        | (other) "str ! i \<noteq> backslash" "str ! i \<noteq> q"
        by blast
      then show ?thesis
      proof cases
        case esc
        have eq: "skipQuoted_loop str (Some q) i = skipQuoted_loop str (Some q) (i + 2)"
          using True esc by (subst skipQuoted_loop.simps) simp
        have "i + 2 \<le> length str" using two by simp
        from "1.hyps"(1) [OF True esc this] show ?thesis
          using esc by (auto simp: d2 eq split: option.splits)
      next
        case close
        have "skipQuoted_loop str (Some q) i = i + 1"
          using True close by (subst skipQuoted_loop.simps) simp
        with close True show ?thesis
          by (simp add: d2)
      next
        case other
        have eq: "skipQuoted_loop str (Some q) i = skipQuoted_loop str (Some q) (i + 1)"
          using True other by (subst skipQuoted_loop.simps) simp
        have d3: "drop (Suc i) str = str ! (Suc i) # drop (Suc (Suc i)) str"
          using Cons_nth_drop_Suc [OF two, symmetric] by simp
        have "i + 1 \<le> length str" using True by simp
        from "1.hyps"(2) [OF True other(1) _ this] other show ?thesis
          by (auto simp: d2 d3 eq split: option.splits)
      qed
    qed
  qed
qed

text \<open>
  Claim C8, as amended. Where \<open>pos\<close> is an offset of the buffer (the opening quote),
  \<^verbatim>\<open>skipQuoted(str, pos)\<close> returns the offset just past the closing quote, which an
  escaped quote never is, since a backslash consumes the next character whatever it is.
  When the literal is unterminated the result is the length of the buffer, and one more
  when the scan ends on a dangling escape: a backslash in the last position of the buffer,
  met as an escape, moves the cursor two steps, one past the end.
\<close>

theorem skipQuoted_offsets:
  assumes "pos < length str"
  shows "case closing_quote (str ! pos) (drop (pos + 1) str) of
           Some k \<Rightarrow> skipQuoted str pos = pos + 1 + k + 1 \<and> pos + 1 + k < length str
                      \<and> str ! (pos + 1 + k) = str ! pos
         | None \<Rightarrow> skipQuoted str pos
                    = length str
                      + (if dangling_escape (str ! pos) (drop (pos + 1) str) then 1 else 0)"
proof -
  from assms have "pos + 1 \<le> length str" by simp
  from skipQuoted_loop_spec [OF this, of "str ! pos"] assms show ?thesis
    by (auto simp: skipQuoted_def charAt_def split: option.splits)
qed

text \<open>
  Three instances of C8. The first buffer is a quoted literal with an escaped quote in it
  (the characters \<^verbatim>\<open>"a\<close>, a backslash, \<^verbatim>\<open>"b" c\<close>): the escaped quote at offset 3
  is passed over, the literal closes at offset 5 and the result is 6. The second is a
  double quote and two backslashes: the last backslash is escaped by the one before it,
  the literal is unterminated with no dangling escape and the result is the length, 3. The
  third is a double quote, \<^verbatim>\<open>a\<close> and a backslash: the backslash is a dangling escape
  and the result is the length plus one, 4.
\<close>

theorem skipQuoted_offsets_witness:
  \<open>skipQuoted (''"a'' @ [backslash] @ ''"b" c'') 0 = 6
   \<and> closing_quote dquote (''a'' @ [backslash] @ ''"b" c'') = Some 4
   \<and> skipQuoted [dquote, backslash, backslash] 0 = 3
   \<and> skipQuoted [dquote, CHR ''a'', backslash] 0 = 4\<close>
proof -
  have h1: \<open>(0::nat) < length (''"a'' @ [backslash] @ ''"b" c'')\<close>
    by simp
  have c1: \<open>closing_quote ((''"a'' @ [backslash] @ ''"b" c'') ! 0)
              (drop (0 + 1) (''"a'' @ [backslash] @ ''"b" c'')) = Some 4\<close>
    by code_simp
  from skipQuoted_offsets [OF h1] c1
  have r1: \<open>skipQuoted (''"a'' @ [backslash] @ ''"b" c'') 0 = 6\<close>
    by simp
  have c1': \<open>closing_quote dquote (''a'' @ [backslash] @ ''"b" c'') = Some 4\<close>
    by code_simp
  have h2: "(0::nat) < length [dquote, backslash, backslash]"
    by simp
  have c2: "closing_quote ([dquote, backslash, backslash] ! 0)
              (drop (0 + 1) [dquote, backslash, backslash]) = None"
    by code_simp
  have e2: "\<not> dangling_escape ([dquote, backslash, backslash] ! 0)
              (drop (0 + 1) [dquote, backslash, backslash])"
    by code_simp
  from skipQuoted_offsets [OF h2] c2 e2
  have r2: "skipQuoted [dquote, backslash, backslash] 0 = 3"
    by simp
  have h3: "(0::nat) < length [dquote, CHR ''a'', backslash]"
    by simp
  have c3: "closing_quote ([dquote, CHR ''a'', backslash] ! 0)
              (drop (0 + 1) [dquote, CHR ''a'', backslash]) = None"
    by code_simp
  have e3: "dangling_escape ([dquote, CHR ''a'', backslash] ! 0)
              (drop (0 + 1) [dquote, CHR ''a'', backslash])"
    by code_simp
  from skipQuoted_offsets [OF h3] c3 e3
  have r3: "skipQuoted [dquote, CHR ''a'', backslash] 0 = 4"
    by simp
  from r1 c1' r2 r3 show ?thesis by blast
qed

text \<open>
  Claim C8 as it is stated fails: on the buffer of two characters, a double quote and a
  backslash, the result is 3, greater than the length 2.
\<close>

theorem skipQuoted_past_end: "\<not> skipQuoted [dquote, backslash] 0 \<le> length [dquote, backslash]"
  by code_simp

section \<open>Template literals\<close>

text \<open>
  Claim C5. The claim is that \<^verbatim>\<open>skipTemplate\<close> balances the braces of an
  interpolation also when the interpolated expression holds strings, so that a quoted
  \<^verbatim>\<open>}\<close> does not end the interpolation. The inner loop counts every brace: in
  \<^verbatim>\<open>`${"}`"}`\<close> the string at offsets 3 to 6 (\<^verbatim>\<open>skipQuoted\<close> from 3 gives 7)
  holds a brace and a backtick, the interpolation ends at the quoted brace and the template
  at the quoted backtick: the result is 6, not the offset 9 past the closing backtick.
\<close>

theorem skipTemplate_quoted_brace:
  \<open>skipTemplate ''`${"}`"}`'' 0 = 6
   \<and> skipQuoted ''`${"}`"}`'' 3 = 7
   \<and> length ''`${"}`"}`'' = 9\<close>
  by code_simp

text \<open>
  Claim C7. The claim is that \<^verbatim>\<open>findBalancedEnd\<close> returns the offset of the closer
  that matches the opener at \<open>pos\<close>, brackets inside string and template content never
  changing the depth. Inside a template \<^verbatim>\<open>findBalancedEnd\<close> relies on
  \<^verbatim>\<open>skipTemplate\<close>: in the first buffer the template ends at offset 13 and the
  matching closer is the last character, at offset 14, but the result is 10, the brace inside
  the second string of the interpolation; in the second buffer the object is balanced and the
  result is \<open>-1\<close>.
\<close>

theorem findBalancedEnd_template_content:
  \<open>findBalancedEnd ''{`${"}`"+"}"}`}'' 0 = 10
   \<and> length ''{`${"}`"+"}"}`}'' = 15
   \<and> findBalancedEnd ''{ a: `${"}`"}` }'' 0 = - 1\<close>
  by code_simp

section \<open>Scanning seen from the rest of the buffer\<close>

text \<open>
  The scanning functions read the buffer from the cursor onwards only; the lemmas of this
  section state their results through \<open>drop i str\<close>, the text from the cursor.
\<close>

lemma drop_eq_ConsD:
  assumes "drop i xs = c # r"
  shows "i < length xs" and "xs ! i = c" and "drop (Suc i) xs = r"
proof -
  from assms show len: "i < length xs"
    by (cases "i < length xs") auto
  from Cons_nth_drop_Suc [OF len] assms show "xs ! i = c" and "drop (Suc i) xs = r"
    by simp_all
qed

lemma drop_eq_appendD: "drop i xs = a @ b \<Longrightarrow> drop (i + length a) xs = b"
proof -
  assume "drop i xs = a @ b"
  then have "drop (length a) (drop i xs) = b"
    by simp
  then show ?thesis
    by (simp add: add.commute)
qed

lemma scan_while_takeWhile: "scan_while P str i = i + length (takeWhile P (drop i str))"
proof (induction P str i rule: scan_while.induct)
  case (1 P str i)
  show ?case
  proof (cases "i < length str")
    case False
    then show ?thesis
      by (subst scan_while.simps) simp
  next
    case True
    then have d: "drop i str = str ! i # drop (Suc i) str"
      by (rule Cons_nth_drop_Suc [symmetric])
    show ?thesis
    proof (cases "P (str ! i)")
      case False
      with True show ?thesis
        by (subst scan_while.simps) (simp add: d)
    next
      case holds: True
      with True have "scan_while P str i = scan_while P str (i + 1)"
        by (subst scan_while.simps) simp
      also have "\<dots> = i + 1 + length (takeWhile P (drop (i + 1) str))"
        using "1.IH" True holds by simp
      finally show ?thesis
        using holds by (simp add: d)
    qed
  qed
qed

lemma substring_take_drop: "a \<le> b \<Longrightarrow> substring str a b = take (b - a) (drop a str)"
  by (cases "a \<le> length str") (auto simp: substring_def Let_def min_def max_def)

lemma charAt_drop: "charAt str i = (case drop i str of [] \<Rightarrow> None | c # r \<Rightarrow> Some c)"
proof (cases "i < length str")
  case True
  then show ?thesis
    by (simp add: charAt_def Cons_nth_drop_Suc [symmetric])
next
  case False
  then show ?thesis
    by (simp add: charAt_def)
qed

section \<open>The scanner on balanced text\<close>

lemma closing_quote_escaped:
  "escaped_content q s \<Longrightarrow> q \<noteq> backslash \<Longrightarrow> closing_quote q (s @ q # t) = Some (length s)"
proof (induction q s rule: escaped_content.induct)
  case (1 q)
  then show ?case by (cases t) simp_all
next
  case (2 q c)
  then show ?case by (cases t) simp_all
next
  case (3 q c d cs)
  then show ?case by (cases "c = backslash") simp_all
qed

lemma skipQuoted_literal:
  assumes "drop i str = q # s @ q # rest" and "escaped_content q s" and "q \<noteq> backslash"
  shows "skipQuoted str i = i + length s + 2"
proof -
  from drop_eq_ConsD [OF assms(1)]
  have len: "i < length str" and q: "str ! i = q" and d: "drop (i + 1) str = s @ q # rest"
    by simp_all
  from len have "i + 1 \<le> length str" by simp
  have cq: "closing_quote q (drop (i + 1) str) = Some (length s)"
    by (simp only: d closing_quote_escaped [OF assms(2,3)])
  from skipQuoted_loop_spec [OF \<open>i + 1 \<le> length str\<close>, of q]
  have "skipQuoted_loop str (Some q) (i + 1) = i + 1 + length s + 1"
    by (simp only: cq option.case)
  with len q show ?thesis
    by (simp add: skipQuoted_def charAt_def)
qed

lemma findBalancedEnd_loop_balanced:
  assumes "balanced s"
    and "(opn = Some (CHR ''{'') \<and> cls = CHR ''}'') \<or> (opn = Some (CHR ''['') \<and> cls = CHR '']'')"
  shows "drop i str = s @ rest \<Longrightarrow> 1 \<le> d \<Longrightarrow>
         findBalancedEnd_loop str opn cls d i = findBalancedEnd_loop str opn cls d (i + length s)"
  using assms(1)
proof (induction s arbitrary: i d rest rule: balanced.induct)
  case Nil
  then show ?case by simp
next
  case (Plain c s)
  from Plain.prems(1) have dr: "drop i str = c # (s @ rest)" by simp
  note at = drop_eq_ConsD [OF dr]
  from Plain.hyps(1) assms(2) at
  have "findBalancedEnd_loop str opn cls d i = findBalancedEnd_loop str opn cls d (i + 1)"
    by (subst findBalancedEnd_loop.simps) (auto simp: structural_def)
  also have "\<dots> = findBalancedEnd_loop str opn cls d (i + 1 + length s)"
    using at(3) Plain.prems(2) by (intro Plain.IH) simp_all
  finally show ?case by simp
next
  case (Brace s t)
  from Brace.prems(1) have dr: "drop i str = CHR ''{'' # (s @ CHR ''}'' # t @ rest)" by simp
  note at = drop_eq_ConsD [OF dr]
  from at(3) have dr1: "drop (i + 1) str = s @ (CHR ''}'' # t @ rest)" by simp
  from drop_eq_appendD [OF dr1] have dr2: "drop (i + 1 + length s) str = CHR ''}'' # (t @ rest)" .
  note at2 = drop_eq_ConsD [OF dr2]
  from at2(3) have dr3: "drop (i + 1 + length s + 1) str = t @ rest" by simp
  from assms(2) show ?case
  proof
    assume brace: "opn = Some (CHR ''{'') \<and> cls = CHR ''}''"
    with at have "findBalancedEnd_loop str opn cls d i
        = findBalancedEnd_loop str opn cls (d + 1) (i + 1)"
      by (subst findBalancedEnd_loop.simps) simp
    also have "\<dots> = findBalancedEnd_loop str opn cls (d + 1) (i + 1 + length s)"
      using dr1 Brace.prems(2) by (intro Brace.IH(1)) simp_all
    also have "\<dots> = findBalancedEnd_loop str opn cls d (i + 1 + length s + 1)"
      using brace at2 Brace.prems(2) by (subst findBalancedEnd_loop.simps) simp
    also have "\<dots> = findBalancedEnd_loop str opn cls d (i + 1 + length s + 1 + length t)"
      using dr3 Brace.prems(2) by (intro Brace.IH(2)) simp_all
    finally show ?thesis by (simp add: add.assoc)
  next
    assume bracket: "opn = Some (CHR ''['') \<and> cls = CHR '']''"
    with at have "findBalancedEnd_loop str opn cls d i
        = findBalancedEnd_loop str opn cls d (i + 1)"
      by (subst findBalancedEnd_loop.simps) simp
    also have "\<dots> = findBalancedEnd_loop str opn cls d (i + 1 + length s)"
      using dr1 Brace.prems(2) by (intro Brace.IH(1)) simp_all
    also have "\<dots> = findBalancedEnd_loop str opn cls d (i + 1 + length s + 1)"
      using bracket at2 by (subst findBalancedEnd_loop.simps) simp
    also have "\<dots> = findBalancedEnd_loop str opn cls d (i + 1 + length s + 1 + length t)"
      using dr3 Brace.prems(2) by (intro Brace.IH(2)) simp_all
    finally show ?thesis by (simp add: add.assoc)
  qed
next
  case (Bracket s t)
  from Bracket.prems(1) have dr: "drop i str = CHR ''['' # (s @ CHR '']'' # t @ rest)" by simp
  note at = drop_eq_ConsD [OF dr]
  from at(3) have dr1: "drop (i + 1) str = s @ (CHR '']'' # t @ rest)" by simp
  from drop_eq_appendD [OF dr1] have dr2: "drop (i + 1 + length s) str = CHR '']'' # (t @ rest)" .
  note at2 = drop_eq_ConsD [OF dr2]
  from at2(3) have dr3: "drop (i + 1 + length s + 1) str = t @ rest" by simp
  from assms(2) show ?case
  proof
    assume bracket: "opn = Some (CHR ''['') \<and> cls = CHR '']''"
    with at have "findBalancedEnd_loop str opn cls d i
        = findBalancedEnd_loop str opn cls (d + 1) (i + 1)"
      by (subst findBalancedEnd_loop.simps) simp
    also have "\<dots> = findBalancedEnd_loop str opn cls (d + 1) (i + 1 + length s)"
      using dr1 Bracket.prems(2) by (intro Bracket.IH(1)) simp_all
    also have "\<dots> = findBalancedEnd_loop str opn cls d (i + 1 + length s + 1)"
      using bracket at2 Bracket.prems(2) by (subst findBalancedEnd_loop.simps) simp
    also have "\<dots> = findBalancedEnd_loop str opn cls d (i + 1 + length s + 1 + length t)"
      using dr3 Bracket.prems(2) by (intro Bracket.IH(2)) simp_all
    finally show ?thesis by (simp add: add.assoc)
  next
    assume brace: "opn = Some (CHR ''{'') \<and> cls = CHR ''}''"
    with at have "findBalancedEnd_loop str opn cls d i
        = findBalancedEnd_loop str opn cls d (i + 1)"
      by (subst findBalancedEnd_loop.simps) simp
    also have "\<dots> = findBalancedEnd_loop str opn cls d (i + 1 + length s)"
      using dr1 Bracket.prems(2) by (intro Bracket.IH(1)) simp_all
    also have "\<dots> = findBalancedEnd_loop str opn cls d (i + 1 + length s + 1)"
      using brace at2 by (subst findBalancedEnd_loop.simps) simp
    also have "\<dots> = findBalancedEnd_loop str opn cls d (i + 1 + length s + 1 + length t)"
      using dr3 Bracket.prems(2) by (intro Bracket.IH(2)) simp_all
    finally show ?thesis by (simp add: add.assoc)
  qed
next
  case (Quote q s t)
  from Quote.prems(1) have dr: "drop i str = q # s @ q # (t @ rest)" by simp
  note at = drop_eq_ConsD [OF dr]
  from Quote.hyps(1) have nb: "q \<noteq> backslash" by auto
  have sk: "skipQuoted str i = i + length s + 2"
    using dr Quote.hyps(2) nb by (rule skipQuoted_literal)
  from at(3) have "drop (i + 1) str = s @ (q # t @ rest)" by simp
  from drop_eq_appendD [OF this] have "drop (i + 1 + length s) str = q # (t @ rest)" .
  from drop_eq_ConsD(3) [OF this] have dr3: "drop (i + length s + 2) str = t @ rest" by simp
  from at Quote.hyps(1) have "findBalancedEnd_loop str opn cls d i
      = findBalancedEnd_loop str opn cls d (i + length s + 2)"
    by (subst findBalancedEnd_loop.simps) (auto simp: sk)
  also have "\<dots> = findBalancedEnd_loop str opn cls d (i + length s + 2 + length t)"
    using dr3 Quote.prems(2) by (intro Quote.IH) simp_all
  finally show ?case by (simp add: add.assoc)
qed

lemma balanced_plain: "\<forall>c\<in>set s. \<not> structural c \<Longrightarrow> balanced s"
  by (induction s) (auto intro: balanced.intros)

lemma balanced_append: "balanced a \<Longrightarrow> balanced b \<Longrightarrow> balanced (a @ b)"
proof (induction a rule: balanced.induct)
  case Nil
  then show ?case by simp
next
  case (Plain c s)
  then show ?case by (auto intro: balanced.Plain)
next
  case (Brace s t)
  then have "balanced (CHR ''{'' # s @ CHR ''}'' # (t @ b))"
    by (intro balanced.Brace) simp_all
  then show ?case by simp
next
  case (Bracket s t)
  then have "balanced (CHR ''['' # s @ CHR '']'' # (t @ b))"
    by (intro balanced.Bracket) simp_all
  then show ?case by simp
next
  case (Quote q s t)
  then have "balanced (q # s @ q # (t @ b))"
    by (intro balanced.Quote) simp_all
  then show ?case by simp
qed


lemma findBalancedEnd_brace_span:
  assumes "drop i str = CHR ''{'' # s @ CHR ''}'' # rest" and "balanced s"
  shows "findBalancedEnd str i = int (i + length s + 1)"
proof -
  note at = drop_eq_ConsD [OF assms(1)]
  from at(3) have dr1: "drop (i + 1) str = s @ (CHR ''}'' # rest)" by simp
  from drop_eq_appendD [OF dr1] have "drop (i + 1 + length s) str = CHR ''}'' # rest" .
  note at2 = drop_eq_ConsD [OF this]
  from at have "findBalancedEnd str i
      = findBalancedEnd_loop str (Some (CHR ''{'')) (CHR ''}'') 0 i"
    by (simp add: findBalancedEnd_def charAt_def)
  also have "\<dots> = findBalancedEnd_loop str (Some (CHR ''{'')) (CHR ''}'') 1 (i + 1)"
    using at by (subst findBalancedEnd_loop.simps) simp
  also have "\<dots> = findBalancedEnd_loop str (Some (CHR ''{'')) (CHR ''}'') 1 (i + 1 + length s)"
    using assms(2) _ dr1 by (rule findBalancedEnd_loop_balanced) simp_all
  also have "\<dots> = int (i + 1 + length s)"
    using at2 by (subst findBalancedEnd_loop.simps) simp
  finally show ?thesis by simp
qed

lemma findBalancedEnd_bracket_span:
  assumes "drop i str = CHR ''['' # s @ CHR '']'' # rest" and "balanced s"
  shows "findBalancedEnd str i = int (i + length s + 1)"
proof -
  note at = drop_eq_ConsD [OF assms(1)]
  from at(3) have dr1: "drop (i + 1) str = s @ (CHR '']'' # rest)" by simp
  from drop_eq_appendD [OF dr1] have "drop (i + 1 + length s) str = CHR '']'' # rest" .
  note at2 = drop_eq_ConsD [OF this]
  from at have "findBalancedEnd str i
      = findBalancedEnd_loop str (Some (CHR ''['')) (CHR '']'') 0 i"
    by (simp add: findBalancedEnd_def charAt_def)
  also have "\<dots> = findBalancedEnd_loop str (Some (CHR ''['')) (CHR '']'') 1 (i + 1)"
    using at by (subst findBalancedEnd_loop.simps) simp
  also have "\<dots> = findBalancedEnd_loop str (Some (CHR ''['')) (CHR '']'') 1 (i + 1 + length s)"
    using assms(2) _ dr1 by (rule findBalancedEnd_loop_balanced) simp_all
  also have "\<dots> = int (i + 1 + length s)"
    using at2 by (subst findBalancedEnd_loop.simps) simp
  finally show ?thesis by simp
qed

section \<open>The steps of the property locator\<close>

lemma ident_char_simps:
  assumes "ident_char c"
  shows "\<not> is_delim c" "\<not> is_space c" "c \<noteq> CHR '' ''" "c \<noteq> CHR '':''" "c \<noteq> CHR '',''"
    "c \<noteq> newline" "c \<noteq> CHR ''{''" "c \<noteq> CHR ''[''" "c \<noteq> backtick" "c \<noteq> dquote" "c \<noteq> squote"
  using assms by (auto simp: ident_char_def is_delim_def is_space_def)

lemma prop_match_first_differs:
  assumes "drop i body = c # r" and "P \<noteq> []" and "hd P \<noteq> c"
  shows "prop_match body P i = None"
proof -
  from assms(2) obtain p ps where P: "P = p # ps" by (cases P) auto
  have "substring body i (i + length P) = take (length P) (drop i body)"
    by (simp add: substring_take_drop)
  with assms P have "substring body i (i + length P) \<noteq> P"
    by auto
  then show ?thesis
    by (simp add: prop_match_def)
qed

lemma prop_match_ident_run:
  assumes dr: "drop i body = x @ d # rest"
    and x: "\<forall>c\<in>set x. ident_char c"
    and d: "\<not> ident_char d" "d \<noteq> CHR '' ''"
    and P: "\<forall>c\<in>set P. ident_char c"
    and other: "x = P \<longrightarrow> d \<noteq> CHR '':''"
  shows "prop_match body P i = None"
proof (cases "substring body i (i + length P) = P")
  case False
  then show ?thesis
    by (simp add: prop_match_def)
next
  case True
  then have tk: "take (length P) (x @ d # rest) = P"
    by (simp add: substring_take_drop dr)
  have le: "length P \<le> length x"
  proof (rule ccontr)
    assume "\<not> length P \<le> length x"
    then have "length x < length P" by simp
    with tk have "P ! length x = d"
      by (metis nth_take nth_append_length)
    with P \<open>length x < length P\<close> d(1) show False
      by (metis nth_mem)
  qed
  with tk have px: "take (length P) x = P" by simp
  have "drop (i + length P) body = drop (length P) (x @ d # rest)"
    using dr by (metis add.commute drop_drop)
  with le have dr2: "drop (i + length P) body = drop (length P) x @ d # rest"
    by simp
  obtain h r where hr: "drop (i + length P) body = h # r" and h: "h \<noteq> CHR '' ''" "h \<noteq> CHR '':''"
  proof (cases "drop (length P) x")
    case Nil
    with le have "length x = length P" by simp
    with px have "x = P" by simp
    with other d(2) Nil dr2 that show ?thesis by simp
  next
    case (Cons h r)
    then have "h \<in> set x"
      by (metis in_set_dropD list.set_intros(1))
    with x have "ident_char h" by blast
    with Cons dr2 that show ?thesis
      by (simp add: ident_char_simps)
  qed
  from hr h have j: "scan_while (\<lambda>c. c = CHR '' '') body (i + length P) = i + length P"
    by (simp add: scan_while_takeWhile)
  from hr h have "charAt body (i + length P) \<noteq> Some (CHR '':'')"
    by (simp add: charAt_drop)
  with j show ?thesis
    by (simp add: prop_match_def Let_def)
qed

lemma prop_match_key:
  assumes dr: "drop i body = P @ CHR '':'' # sp @ rest"
    and spaces: "\<forall>c\<in>set sp. c = CHR '' ''"
    and rest: "rest = [] \<or> hd rest \<noteq> CHR '' ''"
  shows "prop_match body P i = Some (i + length P + 1 + length sp)"
proof -
  have sub: "substring body i (i + length P) = P"
    by (simp add: substring_take_drop dr)
  from drop_eq_appendD [OF dr] have dr2: "drop (i + length P) body = CHR '':'' # (sp @ rest)" .
  then have j: "scan_while (\<lambda>c. c = CHR '' '') body (i + length P) = i + length P"
    by (simp add: scan_while_takeWhile)
  from dr2 have colon: "charAt body (i + length P) = Some (CHR '':'')"
    by (simp add: charAt_drop)
  from drop_eq_ConsD(3) [OF dr2] have dr3: "drop (i + length P + 1) body = sp @ rest"
    by simp
  have "takeWhile (\<lambda>c. c = CHR '' '') (sp @ rest) = sp"
    using spaces rest by (cases rest) (simp_all add: takeWhile_append2)
  with dr3 have "scan_while (\<lambda>c. c = CHR '' '') body (i + length P + 1) = i + length P + 1 + length sp"
    by (simp add: scan_while_takeWhile)
  with sub j colon show ?thesis
    by (simp add: prop_match_def Let_def)
qed

lemma advance_run:
  assumes dr: "drop i body = x @ rest"
    and x: "x \<noteq> []" "\<forall>c\<in>set x. \<not> is_delim c"
    and rest: "rest = [] \<or> is_delim (hd rest)"
  shows "advance body i = i + length x + (if rest \<noteq> [] \<and> hd rest = CHR '','' then 1 else 0)"
proof -
  from x(1) obtain c x' where xc: "x = c # x'" by (cases x) auto
  with dr have "drop i body = c # (x' @ rest)" by simp
  note at = drop_eq_ConsD [OF this]
  from x(2) xc have c: "\<not> is_delim c" by simp
  then have nb: "c \<noteq> CHR ''{''" "c \<noteq> CHR ''[''" "c \<noteq> backtick" "c \<noteq> dquote" "c \<noteq> squote"
    by (auto simp: is_delim_def)
  have tw: "takeWhile (\<lambda>c. \<not> is_delim c) (x @ rest) = x"
    using x(2) rest by (cases rest) (simp_all add: takeWhile_append2)
  then have sc: "scan_while (\<lambda>c. \<not> is_delim c) body i = i + length x"
    by (simp add: scan_while_takeWhile dr)
  from drop_eq_appendD [OF dr] have dr2: "drop (i + length x) body = rest" .
  show ?thesis
  proof (cases rest)
    case Nil
    with dr2 have "length body \<le> i + length x" by simp
    with at nb sc Nil show ?thesis
      by (simp add: advance_def Let_def)
  next
    case (Cons d r)
    with dr2 have "drop (i + length x) body = d # r" by simp
    note at2 = drop_eq_ConsD [OF this]
    from rest Cons have "is_delim d" by simp
    then have "d \<noteq> CHR '':''" by (auto simp: is_delim_def is_space_def)
    with at nb sc Cons at2 show ?thesis
      by (simp add: advance_def Let_def)
  qed
qed

lemma advance_comma:
  assumes "drop i body = CHR '','' # rest"
  shows "advance body i = i + 1"
proof -
  note at = drop_eq_ConsD [OF assms]
  have "scan_while (\<lambda>c. \<not> is_delim c) body i = i"
    by (simp add: scan_while_takeWhile assms is_delim_def)
  with at show ?thesis
    by (simp add: advance_def Let_def)
qed

lemma advance_brace:
  assumes "drop i body = CHR ''{'' # s @ CHR ''}'' # rest" and "balanced s"
  shows "advance body i = i + length s + 2"
  using drop_eq_ConsD [OF assms(1)] findBalancedEnd_brace_span [OF assms]
  by (simp add: advance_def)

lemma advance_bracket:
  assumes "drop i body = CHR ''['' # s @ CHR '']'' # rest" and "balanced s"
  shows "advance body i = i + length s + 2"
  using drop_eq_ConsD [OF assms(1)] findBalancedEnd_bracket_span [OF assms]
  by (simp add: advance_def)

lemma advance_literal:
  assumes "drop i body = q # s @ q # rest" and "q = dquote \<or> q = squote" and "escaped_content q s"
  shows "advance body i = i + length s + 2"
proof -
  from assms(2) have "q \<noteq> backslash" by auto
  from skipQuoted_literal [OF assms(1,3) this] drop_eq_ConsD [OF assms(1)] assms(2)
  show ?thesis
    by (auto simp: advance_def)
qed

lemma extractProp_loop_step:
  assumes dr: "drop i body = ws @ c # rest"
    and ws: "\<forall>c\<in>set ws. is_space c" and c: "\<not> is_space c"
    and pm: "prop_match body P (i + length ws) = None"
  shows "extractProp_loop body P i = extractProp_loop body P (advance body (i + length ws))"
proof -
  from dr have len: "i < length body"
    by (cases "i < length body") auto
  have "takeWhile is_space (ws @ c # rest) = ws"
    using ws c by (simp add: takeWhile_append2)
  then have sc: "scan_while is_space body i = i + length ws"
    by (simp add: scan_while_takeWhile dr)
  from drop_eq_appendD [OF dr] have "drop (i + length ws) body = c # rest" .
  from drop_eq_ConsD(1) [OF this] have "i + length ws < length body" .
  with len sc pm show ?thesis
    by (subst extractProp_loop.simps) (simp add: Let_def)
qed

lemma extractProp_loop_match:
  assumes dr: "drop i body = ws @ c # rest"
    and ws: "\<forall>c\<in>set ws. is_space c" and c: "\<not> is_space c"
    and pm: "prop_match body P (i + length ws) = Some j"
  shows "extractProp_loop body P i = Some (Some (substring body j (value_end body j)))"
proof -
  from dr have len: "i < length body"
    by (cases "i < length body") auto
  have "takeWhile is_space (ws @ c # rest) = ws"
    using ws c by (simp add: takeWhile_append2)
  then have sc: "scan_while is_space body i = i + length ws"
    by (simp add: scan_while_takeWhile dr)
  from drop_eq_appendD [OF dr] have "drop (i + length ws) body = c # rest" .
  from drop_eq_ConsD(1) [OF this] have "i + length ws < length body" .
  with len sc pm show ?thesis
    by (subst extractProp_loop.simps) (simp add: Let_def)
qed

section \<open>Scanning an object body\<close>

lemma render_members_Cons:
  "ms \<noteq> [] \<Longrightarrow> render_members (m # ms) = render_member m @ CHR '','' # render_members ms"
  by (cases ms) simp_all

lemma render_value_first:
  assumes "wf_value v"
  obtains c r where "render_value v = c # r" and "\<not> is_space c"
proof (cases v)
  case (Token t)
  with assms obtain c r where "t = c # r" and "ident_char c"
    by (cases t) auto
  with Token that show ?thesis
    by (simp add: ident_char_simps)
next
  case (Literal q s)
  with assms that [of q "s @ [q]"] show ?thesis
    by (auto simp: is_space_def)
next
  case (Braces s)
  with that [of "CHR ''{''" "s @ ''}''"] show ?thesis
    by (simp add: is_space_def)
next
  case (Brackets s)
  with that [of "CHR ''[''" "s @ '']''"] show ?thesis
    by (simp add: is_space_def)
qed

lemma skip_value:
  assumes wf: "wf_value v" and P: "P \<noteq> []" "\<forall>c\<in>set P. ident_char c"
    and dr: "drop i body = render_value v @ CHR '','' # rest"
  shows "prop_match body P i = None"
    and "extractProp_loop body P (advance body i)
         = extractProp_loop body P (i + length (render_value v) + 1)"
proof -
  from P obtain p ps where Pc: "P = p # ps" and p: "ident_char p"
    by (cases P) auto
  have comma: "extractProp_loop body P k = extractProp_loop body P (k + 1)"
    if "drop k body = CHR '','' # rest" for k
  proof -
    from that have d: "drop k body = [] @ CHR '','' # rest" by simp
    have "hd P \<noteq> CHR '',''"
      using Pc ident_char_simps(5) [OF p] by simp
    from prop_match_first_differs [OF that P(1) this]
    have pm: "prop_match body P (k + length ([]::string)) = None" by simp
    have "extractProp_loop body P k
        = extractProp_loop body P (advance body (k + length ([]::string)))"
      using d _ _ pm by (rule extractProp_loop_step) (simp_all add: is_space_def)
    with advance_comma [OF that] show ?thesis by simp
  qed
  show "prop_match body P i = None"
  proof (cases v)
    case (Token t)
    with wf dr P(2) show ?thesis
      by (intro prop_match_ident_run [of _ _ t "CHR '',''" rest])
        (simp_all add: ident_char_def is_delim_def)
  next
    case (Literal q s)
    with wf dr Pc p show ?thesis
      by (intro prop_match_first_differs [of _ _ q "s @ q # CHR '','' # rest"])
        (auto simp: ident_char_def is_delim_def)
  next
    case (Braces s)
    with dr Pc p show ?thesis
      by (intro prop_match_first_differs [of _ _ "CHR ''{''" "s @ CHR ''}'' # CHR '','' # rest"])
        (auto simp: ident_char_def is_delim_def)
  next
    case (Brackets s)
    with dr Pc p show ?thesis
      by (intro prop_match_first_differs [of _ _ "CHR ''[''" "s @ CHR '']'' # CHR '','' # rest"])
        (auto simp: ident_char_def is_delim_def)
  qed
  show "extractProp_loop body P (advance body i)
        = extractProp_loop body P (i + length (render_value v) + 1)"
  proof (cases v)
    case (Token t)
    with dr have d: "drop i body = t @ (CHR '','' # rest)" by simp
    from wf Token have t: "t \<noteq> []" "\<forall>c\<in>set t. \<not> is_delim c"
      by (auto simp: ident_char_def)
    have "CHR '','' # rest = [] \<or> is_delim (hd (CHR '','' # rest))"
      by (simp add: is_delim_def)
    from advance_run [OF d t this] have "advance body i = i + length t + 1"
      by simp
    with Token show ?thesis by simp
  next
    case (Literal q s)
    with dr have d: "drop i body = q # s @ q # (CHR '','' # rest)" by simp
    from advance_literal [OF d] wf Literal have a: "advance body i = i + length s + 2"
      by simp
    from d have "drop i body = (q # s @ [q]) @ CHR '','' # rest" by simp
    from drop_eq_appendD [OF this] have "drop (i + length s + 2) body = CHR '','' # rest"
      by simp
    from comma [OF this] a Literal show ?thesis by simp
  next
    case (Braces s)
    with dr have d: "drop i body = CHR ''{'' # s @ CHR ''}'' # (CHR '','' # rest)" by simp
    from advance_brace [OF d] wf Braces have a: "advance body i = i + length s + 2"
      by simp
    from d have "drop i body = (CHR ''{'' # s @ ''}'') @ CHR '','' # rest" by simp
    from drop_eq_appendD [OF this] have "drop (i + length s + 2) body = CHR '','' # rest"
      by simp
    from comma [OF this] a Braces show ?thesis by simp
  next
    case (Brackets s)
    with dr have d: "drop i body = CHR ''['' # s @ CHR '']'' # (CHR '','' # rest)" by simp
    from advance_bracket [OF d] wf Brackets have a: "advance body i = i + length s + 2"
      by simp
    from d have "drop i body = (CHR ''['' # s @ '']'') @ CHR '','' # rest" by simp
    from drop_eq_appendD [OF this] have "drop (i + length s + 2) body = CHR '','' # rest"
      by simp
    from comma [OF this] a Brackets show ?thesis by simp
  qed
qed

lemma skip_member:
  assumes wf: "wf_member m" and other: "key m \<noteq> P"
    and P: "P \<noteq> []" "\<forall>c\<in>set P. ident_char c"
    and dr: "drop i body = render_member m @ CHR '','' # rest"
  shows "extractProp_loop body P i = extractProp_loop body P (i + length (render_member m) + 1)"
proof -
  from wf obtain k ks where K: "key m = k # ks" and k: "ident_char k"
    by (cases "key m") (auto simp: wf_member_def)
  from wf have key: "\<forall>c\<in>set (key m @ '':''). \<not> is_delim c"
    by (auto simp: wf_member_def ident_char_def is_delim_def is_space_def)
  from wf have wfv: "wf_value (val m)" by (simp add: wf_member_def)
  then obtain v vs where V: "render_value (val m) = v # vs" and v: "\<not> is_space v"
    by (rule render_value_first)
  let ?after_key = "gap m @ render_value (val m) @ CHR '','' # rest"
  from dr have d0: "drop i body = lead m @ k # (ks @ CHR '':'' # ?after_key)"
    by (simp add: render_member_def K)
  from drop_eq_appendD [OF d0]
  have d1: "drop (i + length (lead m)) body = key m @ CHR '':'' # ?after_key"
    by (simp add: K)
  have pm1: "prop_match body P (i + length (lead m)) = None"
    using d1 wf P(2) other
    by (intro prop_match_ident_run [of _ _ "key m" "CHR '':''" ?after_key])
      (simp_all add: wf_member_def ident_char_def)
  have first: "extractProp_loop body P i
      = extractProp_loop body P (advance body (i + length (lead m)))"
    using d0 _ ident_char_simps(2) [OF k] pm1
    by (rule extractProp_loop_step) (use wf in \<open>simp add: wf_member_def\<close>)
  show ?thesis
  proof (cases "gap m = [] \<and> (\<exists>t. val m = Token t)")
    case True
    then obtain t where t: "val m = Token t" and g: "gap m = []"
      by blast
    from wfv t have tok: "\<forall>c\<in>set t. \<not> is_delim c"
      by (auto simp: ident_char_def)
    from d1 t g have "drop (i + length (lead m)) body = (key m @ '':'' @ t) @ (CHR '','' # rest)"
      by simp
    moreover have "key m @ '':'' @ t \<noteq> []"
      by simp
    moreover have "\<forall>c\<in>set (key m @ '':'' @ t). \<not> is_delim c"
      using key tok by auto
    moreover have "CHR '','' # rest = [] \<or> is_delim (hd (CHR '','' # rest))"
      by (simp add: is_delim_def)
    ultimately
    have "advance body (i + length (lead m)) = i + length (lead m) + length (key m @ '':'' @ t) + 1"
      using advance_run [of "i + length (lead m)" body "key m @ '':'' @ t" "CHR '','' # rest"]
      by simp
    with first t g show ?thesis
      by (simp add: render_member_def add.assoc)
  next
    case False
    have stop: "is_delim (hd ?after_key)" "hd ?after_key \<noteq> CHR '',''"
    proof -
      show "is_delim (hd ?after_key)"
      proof (cases "gap m")
        case Nil
        with False wfv show ?thesis
          by (cases "val m") (auto simp: is_delim_def)
      next
        case (Cons g gs)
        with wf show ?thesis
          by (simp add: wf_member_def is_delim_def is_space_def)
      qed
      show "hd ?after_key \<noteq> CHR '',''"
      proof (cases "gap m")
        case Nil
        with False wfv show ?thesis
          by (cases "val m") auto
      next
        case (Cons g gs)
        with wf show ?thesis
          by (simp add: wf_member_def)
      qed
    qed
    have ak: "?after_key \<noteq> []" by (simp add: V)
    from d1 have dk: "drop (i + length (lead m)) body = (key m @ '':'') @ ?after_key" by simp
    from advance_run [OF dk _ key] stop ak
    have "advance body (i + length (lead m)) = i + length (lead m) + length (key m) + 1"
      by simp
    with first have first': "extractProp_loop body P i
        = extractProp_loop body P (i + length (lead m) + length (key m) + 1)"
      by simp
    let ?i2 = "i + length (lead m) + length (key m) + 1"
    from drop_eq_appendD [OF dk]
    have d2: "drop ?i2 body = gap m @ v # (vs @ CHR '','' # rest)"
      by (simp add: V add.assoc)
    from drop_eq_appendD [OF d2]
    have d3: "drop (?i2 + length (gap m)) body = render_value (val m) @ CHR '','' # rest"
      by (simp add: V)
    note sv = skip_value [OF wfv P d3]
    have "extractProp_loop body P ?i2
        = extractProp_loop body P (advance body (?i2 + length (gap m)))"
      using d2 _ v sv(1)
      by (rule extractProp_loop_step) (use wf in \<open>simp add: wf_member_def is_space_def\<close>)
    also note sv(2)
    finally have "extractProp_loop body P ?i2
        = extractProp_loop body P (?i2 + length (gap m) + length (render_value (val m)) + 1)" .
    with first' show ?thesis
      by (simp add: render_member_def add.assoc)
  qed
qed

lemma value_text:
  assumes wf: "wf_value v"
    and dr: "drop j body = render_value v @ rest"
    and rest: "\<And>t. v = Token t \<Longrightarrow> rest = [] \<or> hd rest = CHR '','' \<or> hd rest = newline"
  shows "substring body j (value_end body j) = render_value v"
proof -
  have sub: "substring body j (j + n) = take n (render_value v @ rest)" for n
    by (simp add: substring_take_drop dr)
  show ?thesis
  proof (cases v)
    case (Token t)
    with wf obtain c r where t: "t = c # r" and c: "ident_char c"
      by (cases t) auto
    from dr Token t have "charAt body j = Some c"
      by (simp add: charAt_drop)
    with c have ve: "value_end body j = scan_while (\<lambda>c. c \<noteq> CHR '','' \<and> c \<noteq> newline) body j"
      by (auto simp: value_end_def ident_char_def is_delim_def)
    from wf Token have "\<forall>c\<in>set t. c \<noteq> CHR '','' \<and> c \<noteq> newline"
      by (auto simp: ident_char_def is_delim_def is_space_def)
    then have "takeWhile (\<lambda>c. c \<noteq> CHR '','' \<and> c \<noteq> newline) (t @ rest) = t"
      using rest [OF Token] by (cases rest) (auto simp: takeWhile_append2)
    with ve dr Token have "value_end body j = j + length t"
      by (simp add: scan_while_takeWhile)
    with sub [of "length t"] Token show ?thesis
      by simp
  next
    case (Literal q s)
    with dr have d: "drop j body = q # s @ q # rest" by simp
    from wf Literal have q: "q = dquote \<or> q = squote" and s: "escaped_content q s"
      by simp_all
    from q have "q \<noteq> backslash" by auto
    from skipQuoted_literal [OF d s this] d q
    have "value_end body j = j + (length s + 2)"
      by (auto simp: value_end_def charAt_drop)
    with sub [of "length s + 2"] Literal show ?thesis
      by simp
  next
    case (Braces s)
    with dr have d: "drop j body = CHR ''{'' # s @ CHR ''}'' # rest" by simp
    from wf Braces have "balanced s" by simp
    from findBalancedEnd_brace_span [OF d this] d
    have "value_end body j = j + (length s + 2)"
      by (simp add: value_end_def charAt_drop)
    with sub [of "length s + 2"] Braces show ?thesis
      by simp
  next
    case (Brackets s)
    with dr have d: "drop j body = CHR ''['' # s @ CHR '']'' # rest" by simp
    from wf Brackets have "balanced s" by simp
    from findBalancedEnd_bracket_span [OF d this] d
    have "value_end body j = j + (length s + 2)"
      by (simp add: value_end_def charAt_drop)
    with sub [of "length s + 2"] Brackets show ?thesis
      by simp
  qed
qed

lemma match_member:
  assumes wf: "wf_member m"
    and dr: "drop i body = render_member m @ rest"
    and rest: "\<And>t. val m = Token t \<Longrightarrow> rest = [] \<or> hd rest = CHR '','' \<or> hd rest = newline"
  shows "extractProp_loop body (key m) i = Some (Some (render_value (val m)))"
proof -
  from wf obtain k ks where K: "key m = k # ks" and k: "ident_char k"
    by (cases "key m") (auto simp: wf_member_def)
  from wf have wfv: "wf_value (val m)" and gap: "\<forall>c\<in>set (gap m). c = CHR '' ''"
    by (simp_all add: wf_member_def)
  from wfv obtain v vs where V: "render_value (val m) = v # vs" and v: "\<not> is_space v"
    by (rule render_value_first)
  from v have v': "v \<noteq> CHR '' ''" by (auto simp: is_space_def)
  let ?after_key = "gap m @ render_value (val m) @ rest"
  from dr have d0: "drop i body = lead m @ k # (ks @ CHR '':'' # ?after_key)"
    by (simp add: render_member_def K)
  from drop_eq_appendD [OF d0]
  have d1: "drop (i + length (lead m)) body = key m @ CHR '':'' # gap m @ (render_value (val m) @ rest)"
    by (simp add: K)
  have "render_value (val m) @ rest = [] \<or> hd (render_value (val m) @ rest) \<noteq> CHR '' ''"
    using V v' by simp
  from prop_match_key [OF d1 gap this]
  have pm: "prop_match body (key m) (i + length (lead m))
      = Some (i + length (lead m) + length (key m) + 1 + length (gap m))" .
  let ?j = "i + length (lead m) + length (key m) + 1 + length (gap m)"
  from d1 have "drop (i + length (lead m)) body
      = (key m @ '':'' @ gap m) @ (render_value (val m) @ rest)"
    by simp
  from drop_eq_appendD [OF this] have dj: "drop ?j body = render_value (val m) @ rest"
    by (simp add: add.assoc)
  have "extractProp_loop body (key m) i = Some (Some (substring body ?j (value_end body ?j)))"
    using d0 _ ident_char_simps(2) [OF k] pm
    by (rule extractProp_loop_match) (use wf in \<open>simp add: wf_member_def\<close>)
  with value_text [OF wfv dj rest] show ?thesis
    by simp
qed

lemma skip_members:
  assumes before: "\<forall>b\<in>set before. wf_member b \<and> key b \<noteq> P"
    and P: "P \<noteq> []" "\<forall>c\<in>set P. ident_char c"
  shows "drop i body = render_members (before @ [m]) @ rest \<Longrightarrow>
         \<exists>k. extractProp_loop body P i = extractProp_loop body P k
              \<and> drop k body = render_member m @ rest"
  using before
proof (induction before arbitrary: i)
  case Nil
  then show ?case by auto
next
  case (Cons b before)
  from Cons.prems(1)
  have dr: "drop i body = render_member b @ CHR '','' # (render_members (before @ [m]) @ rest)"
    by (simp add: render_members_Cons)
  from Cons.prems(2) have b: "wf_member b" "key b \<noteq> P" by simp_all
  from skip_member [OF b P dr]
  have step: "extractProp_loop body P i
      = extractProp_loop body P (i + length (render_member b) + 1)" .
  from dr have "drop i body = (render_member b @ '','') @ (render_members (before @ [m]) @ rest)"
    by simp
  from drop_eq_appendD [OF this]
  have "drop (i + length (render_member b) + 1) body = render_members (before @ [m]) @ rest"
    by (simp add: add.assoc)
  from Cons.IH [OF this] Cons.prems(2) step show ?case
    by auto
qed

section \<open>The property locator on an object body\<close>

text \<open>
  The body is a sequence of properties \<open>before\<close>, none with the key of \<open>m\<close>, then the
  property \<open>m\<close>, then the text \<open>rest\<close>, which is empty or starts with the comma that
  ends \<open>m\<close>. The values of \<open>before\<close> may be child objects and arrays with any balanced
  interior, in particular one that holds properties with the key of \<open>m\<close>: the scan
  passes over each of them as a whole, and \<^verbatim>\<open>extractProp\<close> returns the text of the
  value of \<open>m\<close>.
\<close>

lemma extractProp_member_value:
  assumes "\<forall>b\<in>set before. wf_member b \<and> key b \<noteq> key m"
    and "wf_member m"
    and "rest = [] \<or> hd rest = CHR '',''"
  shows "extractProp (render_members (before @ [m]) @ rest) (key m)
         = Some (Some (render_value (val m)))"
proof -
  let ?body = "render_members (before @ [m]) @ rest"
  from assms(2) have P: "key m \<noteq> []" "\<forall>c\<in>set (key m). ident_char c"
    by (simp_all add: wf_member_def)
  from assms(3) have tok: "rest = [] \<or> hd rest = CHR '','' \<or> hd rest = newline"
    by blast
  have "drop 0 ?body = render_members (before @ [m]) @ rest"
    by simp
  from skip_members [OF assms(1) P this]
  obtain k where "extractProp_loop ?body (key m) 0 = extractProp_loop ?body (key m) k"
    and "drop k ?body = render_member m @ rest"
    by blast
  with match_member [OF assms(2) _ tok, of k ?body] show ?thesis
    by (simp add: extractProp_def)
qed

text \<open>
  An instance: the key \<^verbatim>\<open>value\<close> occurs in a child object and, two levels down and
  before a quoted brace, in a child array, before it occurs at depth zero.
\<close>

lemma extractProp_member_value_example:
  \<open>render_members ([Member [] ''c'' '' '' (Braces '' value: 3 ''),
                    Member '' '' ''d'' [] (Brackets ''{ value: "}" }'')]
                   @ [Member '' '' ''value'' '' '' (Token ''2'')]) @ '', e: 5''
     = ''c: { value: 3 }, d:[{ value: "}" }], value: 2, e: 5''
   \<and> extractProp ''c: { value: 3 }, d:[{ value: "}" }], value: 2, e: 5'' ''value''
       = Some (Some ''2'')\<close>
proof -
  let ?c = \<open>Member [] ''c'' '' '' (Braces '' value: 3 '')\<close>
  let ?d = \<open>Member '' '' ''d'' [] (Brackets ''{ value: "}" }'')\<close>
  let ?m = \<open>Member '' '' ''value'' '' '' (Token ''2'')\<close>
  have ident: "ident_char c" if "c \<in> set ''cdvalue2''" for c
    using that by (auto simp: ident_char_def is_delim_def is_space_def)
  have b1: "balanced '' value: 3 ''"
    by (rule balanced_plain) (simp add: structural_def)
  have "balanced '' value: ''" "balanced '' ''"
    by (rule balanced_plain, simp add: structural_def)+
  then have \<open>balanced ('' value: '' @ (dquote # ''}'' @ dquote # '' ''))\<close>
    by (intro balanced_append balanced.Quote) simp_all
  then have \<open>balanced (CHR ''{'' # '' value: "}" '' @ CHR ''}'' # [])\<close>
    by (intro balanced.Brace balanced.Nil) simp
  then have b2: \<open>balanced ''{ value: "}" }''\<close>
    by simp
  have wc: "wf_member ?c" and wd: "wf_member ?d" and wm: "wf_member ?m"
    using b1 b2 ident by (simp_all add: wf_member_def is_space_def)
  have before: "\<forall>b\<in>set [?c, ?d]. wf_member b \<and> key b \<noteq> key ?m"
    using wc wd by simp
  have rest: "'', e: 5'' = [] \<or> hd '', e: 5'' = CHR '',''"
    by simp
  have body: \<open>render_members ([?c, ?d] @ [?m]) @ '', e: 5''
      = ''c: { value: 3 }, d:[{ value: "}" }], value: 2, e: 5''\<close>
    by (simp add: render_member_def)
  from extractProp_member_value [OF before wm rest]
  have \<open>extractProp ''c: { value: 3 }, d:[{ value: "}" }], value: 2, e: 5'' ''value''
      = Some (Some ''2'')\<close>
    by (simp add: render_member_def)
  with body show ?thesis
    by (rule conjI)
qed

section \<open>The value text returned by the property locator\<close>

text \<open>
  Claim C6. The claim is that, when a property named \<open>P\<close> occurs at depth zero of the
  body and properties of the same name occur in child objects or arrays before it,
  \<^verbatim>\<open>extractProp\<close> returns exactly the value text of the depth-zero \<open>P\<close>. The text
  returned is not always the value text: a value that starts with neither a brace, a
  bracket nor a quote is taken up to the next comma or newline, at whatever depth that
  comma is. In the first body below the value of \<^verbatim>\<open>value\<close> at depth zero is
  \<^verbatim>\<open>f(1, 2)\<close> and the text returned is \<^verbatim>\<open>f(1\<close>; in the second it is
  \<^verbatim>\<open>x ? [1, 2] : 3\<close> and the text returned is \<^verbatim>\<open>x ? [1\<close>. The rewrite of the
  third buffer copies the cut text: the returned buffer holds the line
  \<^verbatim>\<open>value: f(1,\<close> in place of \<^verbatim>\<open>value: f(1, 2)\<close>.
\<close>

theorem extractProp_value_cut:
  \<open>extractProp ''c: { value: 3 }, value: f(1, 2)'' ''value'' = Some (Some ''f(1'')
   \<and> extractProp ''c: { value: 3 }, value: x ? [1, 2] : 3'' ''value'' = Some (Some ''x ? [1'')
   \<and> rewriteShippingDiscountOutput ''operations: [{ value: f(1, 2), targets: 2, message: 3 }]''
     = Some ''{\<newline>  deliveryDiscountsAdd: {\<newline>    selectionStrategy: "ALL",\<newline>    candidates: [\<newline>      {\<newline>        targets: 2,\<newline>        value: f(1,\<newline>        message: 3,\<newline>        associatedDiscountCode: null,\<newline>      },\<newline>    ],\<newline>  },\<newline>}]''\<close>
proof (intro conjI)
  show \<open>extractProp ''c: { value: 3 }, value: f(1, 2)'' ''value'' = Some (Some ''f(1'')\<close>
    by code_simp
  show \<open>extractProp ''c: { value: 3 }, value: x ? [1, 2] : 3'' ''value''
      = Some (Some ''x ? [1'')\<close>
    by code_simp
  show \<open>rewriteShippingDiscountOutput
       ''operations: [{ value: f(1, 2), targets: 2, message: 3 }]''
     = Some ''{\<newline>  deliveryDiscountsAdd: {\<newline>    selectionStrategy: "ALL",\<newline>    candidates: [\<newline>      {\<newline>        targets: 2,\<newline>        value: f(1,\<newline>        message: 3,\<newline>        associatedDiscountCode: null,\<newline>      },\<newline>    ],\<newline>  },\<newline>}]''\<close>
  proof (rule rewrite_first_iteration)
    show \<open>\<not> str_includes ''operations: [{ value: f(1, 2), targets: 2, message: 3 }]''
            ''deliveryDiscountsAdd''\<close>
      by code_simp
    show \<open>0 < length ''operations: [{ value: f(1, 2), targets: 2, message: 3 }]''\<close>
      by simp
    show \<open>rewrite_iteration ''operations: [{ value: f(1, 2), targets: 2, message: 3 }]''
       (detectIndentUnit ''operations: [{ value: f(1, 2), targets: 2, message: 3 }]'') 0
     = Some (Return ''{\<newline>  deliveryDiscountsAdd: {\<newline>    selectionStrategy: "ALL",\<newline>    candidates: [\<newline>      {\<newline>        targets: 2,\<newline>        value: f(1,\<newline>        message: 3,\<newline>        associatedDiscountCode: null,\<newline>      },\<newline>    ],\<newline>  },\<newline>}]'')\<close>
      by code_simp
  qed
qed

end
